theory Spec2Isabelle
  imports Complex_Main "HOL-Library.Word" "HOL-Library.Monad_Syntax"
begin

section \<open>Strings, ranges and fonts\<close>

text \<open>
  A \<open>juce::String\<close> is modelled as a \<open>string\<close>: one list element per character, the
  list ending where the C++ string has its terminating zero. Reading past the last
  character (\<open>atomText[0]\<close> of an empty string, \<open>getLastCharacter\<close>) yields that zero.
  \<open>CharacterFunctions::isWhitespace\<close> is the C library's \<open>iswspace\<close>; on the characters
  modelled here it holds for tab, line feed, vertical tab, form feed, carriage return
  and space.

  Values of C++ type \<open>int\<close> are modelled as unbounded \<open>int\<close>; values of type \<open>float\<close>
  (widths, heights) as \<open>rat\<close>. The sections only store the widths they are given; the
  layout iterator computes with them, and its operations round (see there).
\<close>

definition CR :: char where
  "CR = CHR 0x0D"

definition LF :: char where
  "LF = CHR 0x0A"

definition isWhitespace :: "char \<Rightarrow> bool" where
  "isWhitespace c =
     (c = CHR 0x09 \<or> c = CHR 0x0A \<or> c = CHR 0x0B \<or> c = CHR 0x0C \<or> c = CHR 0x0D \<or> c = CHR 0x20)"

definition firstCharacter :: "string \<Rightarrow> char" where
  "firstCharacter s = (case s of [] \<Rightarrow> CHR 0x00 | c # _ \<Rightarrow> c)"

definition getLastCharacter :: "string \<Rightarrow> char" where
  "getLastCharacter s = (if s = [] then CHR 0x00 else last s)"

text \<open>\<open>String::substring (start)\<close> and \<open>String::substring (start, end)\<close>: both clamp.\<close>

definition substringFrom :: "string \<Rightarrow> int \<Rightarrow> string" where
  "substringFrom s a = drop (nat a) s"

definition substring :: "string \<Rightarrow> int \<Rightarrow> int \<Rightarrow> string" where
  "substring s a b =
     (let a' = max 0 a in if b \<le> a' then [] else take (nat b - nat a') (drop (nat a') s))"

text \<open>
  \<open>juce::Range<int>\<close>: the constructor stores \<open>end = jmax (start, end)\<close>, so a range value
  never has its end before its start.
\<close>

type_synonym Range = "int \<times> int"

definition Range_int :: "int \<Rightarrow> int \<Rightarrow> Range" where
  "Range_int s e = (s, max s e)"

definition getStart :: "Range \<Rightarrow> int" where
  "getStart r = fst r"

definition getEnd :: "Range \<Rightarrow> int" where
  "getEnd r = snd r"

definition getLength :: "Range \<Rightarrow> int" where
  "getLength r = snd r - fst r"

definition isEmptyRange :: "Range \<Rightarrow> bool" where
  "isEmptyRange r = (fst r = snd r)"

definition rangeMinus :: "Range \<Rightarrow> int \<Rightarrow> Range" where
  "rangeMinus r n = Range_int (fst r - n) (snd r - n)"

definition getIntersectionWith :: "Range \<Rightarrow> Range \<Rightarrow> Range" where
  "getIntersectionWith r other = Range_int (max (fst r) (fst other)) (min (snd r) (snd other))"

definition setEnd :: "Range \<Rightarrow> int \<Rightarrow> Range" where
  "setEnd r newEnd = (if newEnd < fst r then (newEnd, newEnd) else (fst r, newEnd))"

text \<open>
  A \<open>juce::Font\<close> is an opaque value of type \<open>'f\<close> compared by equality; what the
  editor asks of it is passed in as a record of functions. \<open>getGlyphRights\<close> stands for a
  \<open>GlyphArrangement\<close> filled by \<open>addLineOfText (font, text, 0, 0)\<close>: the right edges
  of its glyphs, in order.
\<close>

record 'f FontMetrics =
  getStringWidthFloat :: "'f \<Rightarrow> string \<Rightarrow> rat"
  getHeight :: "'f \<Rightarrow> rat"
  getDescent :: "'f \<Rightarrow> rat"
  getGlyphRights :: "'f \<Rightarrow> string \<Rightarrow> rat list"

section \<open>Atoms\<close>

text \<open>
  \<open>numChars\<close> is declared \<open>int\<close>, but every assignment to it is a cast to \<open>juce::uint16\<close>:
  the field holds a 16-bit value, and is modelled as one.
\<close>

record TextAtom =
  atomText :: string
  width :: rat
  numChars :: "16 word"


definition isNewLine :: "TextAtom \<Rightarrow> bool" where
  "isNewLine a = (firstCharacter (atomText a) = CR \<or> firstCharacter (atomText a) = LF)"

definition getText :: "TextAtom \<Rightarrow> char \<Rightarrow> string" where
  "getText a passwordCharacter =
     (if passwordCharacter = CHR 0x00 then atomText a
      else replicate (length (atomText a)) passwordCharacter)"

section \<open>Uniform text sections\<close>

record ('f, 'c) UniformTextSection =
  font :: 'f
  colour :: 'c
  atoms :: "TextAtom list"
  passwordChar :: char

subsection \<open>The tokenizer: \<open>initialiseAtoms\<close>\<close>

text \<open>
  One atom as the end of the loop body builds it: the text is \<open>String (start, numChars)\<close>,
  the width is measured unless the atom is a new line, the count is cast to 16 bits.
\<close>

definition makeAtom :: "'f FontMetrics \<Rightarrow> 'f \<Rightarrow> char \<Rightarrow> string \<Rightarrow> nat \<Rightarrow> TextAtom" where
  "makeAtom fm f pc txt n =
     (let a = \<lparr>atomText = take n txt, width = 0, numChars = 0\<rparr> in
      a\<lparr>width := (if isNewLine a then 0 else getStringWidthFloat fm f (getText a pc)),
        numChars := of_nat n\<rparr>)"

definition isBlank :: "char \<Rightarrow> bool" where
  "isBlank c = (isWhitespace c \<and> c \<noteq> CR \<and> c \<noteq> LF)"

function initialiseAtoms :: "'f FontMetrics \<Rightarrow> 'f \<Rightarrow> char \<Rightarrow> string \<Rightarrow> TextAtom list" where
  "initialiseAtoms fm f pc [] = []"
| "initialiseAtoms fm f pc (c # cs) =
     (if isBlank c then
        (let n = Suc (length (takeWhile isBlank cs))
         in makeAtom fm f pc (c # cs) n # initialiseAtoms fm f pc (drop n (c # cs)))
      else if c = CR then
        (case cs of
           d # ds \<Rightarrow>
             (if d = LF then makeAtom fm f pc cs 1 # initialiseAtoms fm f pc ds
              else makeAtom fm f pc (c # cs) 1 # initialiseAtoms fm f pc cs)
         | [] \<Rightarrow> makeAtom fm f pc (c # cs) 1 # initialiseAtoms fm f pc cs)
      else if c = LF then makeAtom fm f pc (c # cs) 1 # initialiseAtoms fm f pc cs
      else
        (let n = length (takeWhile (\<lambda>d. \<not> isWhitespace d) (c # cs))
         in makeAtom fm f pc (c # cs) n # initialiseAtoms fm f pc (drop n (c # cs))))"
  by pat_completeness auto
termination
  by (relation "measure (\<lambda>(fm, f, pc, s). length s)") (auto simp: isBlank_def)

subsection \<open>Construction, \<open>append\<close>, \<open>split\<close> and the text of a section\<close>

definition newUniformTextSection ::
  "'f FontMetrics \<Rightarrow> string \<Rightarrow> 'f \<Rightarrow> 'c \<Rightarrow> char \<Rightarrow> ('f, 'c) UniformTextSection" where
  "newUniformTextSection fm txt f col pc =
     \<lparr>font = f, colour = col, atoms = initialiseAtoms fm f pc txt, passwordChar = pc\<rparr>"

text \<open>
  \<open>append\<close> changes the section it is called on and leaves \<open>other\<close> as it is. The merged
  count is \<open>(uint16) (lastAtom.numChars + first.numChars)\<close>: addition of 16-bit words.
\<close>

definition append_section ::
  "'f FontMetrics \<Rightarrow> ('f, 'c) UniformTextSection \<Rightarrow> ('f, 'c) UniformTextSection
     \<Rightarrow> ('f, 'c) UniformTextSection" where
  "append_section fm s other =
     (if atoms other \<noteq> [] then
        (if atoms s \<noteq> []
            \<and> \<not> isWhitespace (getLastCharacter (atomText (last (atoms s))))
            \<and> \<not> isWhitespace (firstCharacter (atomText (hd (atoms other))))
         then
           (let lastAtom = last (atoms s);
                first = hd (atoms other);
                joined = lastAtom\<lparr>atomText := atomText lastAtom @ atomText first,
                                   numChars := numChars lastAtom + numChars first\<rparr>;
                measured = joined\<lparr>width :=
                             getStringWidthFloat fm (font s) (getText joined (passwordChar s))\<rparr>
            in s\<lparr>atoms := butlast (atoms s) @ measured # tl (atoms other)\<rparr>)
         else s\<lparr>atoms := atoms s @ atoms other\<rparr>)
      else s)"

text \<open>
  The loop of \<open>split\<close> over the atoms: the result is the atoms that stay and the atoms
  of \<open>section2\<close>. When no atom matches, the loop ends with nothing moved.
\<close>

fun splitAtoms ::
  "'f FontMetrics \<Rightarrow> 'f \<Rightarrow> char \<Rightarrow> int \<Rightarrow> int \<Rightarrow> TextAtom list
     \<Rightarrow> TextAtom list \<times> TextAtom list" where
  "splitAtoms fm f pc indexToBreakAt index [] = ([], [])"
| "splitAtoms fm f pc indexToBreakAt index (atom # rest) =
     (let nextIndex = index + uint (numChars atom) in
      if index = indexToBreakAt then ([], atom # rest)
      else if indexToBreakAt \<ge> index \<and> indexToBreakAt < nextIndex then
        (let secondText = substringFrom (atomText atom) (indexToBreakAt - index);
             second0 = \<lparr>atomText = secondText, width = 0, numChars = 0\<rparr>;
             secondAtom = second0\<lparr>width := getStringWidthFloat fm f (getText second0 pc),
                                  numChars := of_nat (length secondText)\<rparr>;
             cut = atom\<lparr>atomText := substring (atomText atom) 0 (indexToBreakAt - index)\<rparr>;
             firstAtom = cut\<lparr>width := getStringWidthFloat fm f (getText cut pc),
                             numChars := of_int (indexToBreakAt - index)\<rparr>
         in ([firstAtom], secondAtom # rest))
      else
        (let (stay, moved) = splitAtoms fm f pc indexToBreakAt nextIndex rest
         in (atom # stay, moved)))"

text \<open>\<open>split\<close> returns the section as it is left and the new section.\<close>

definition split_section ::
  "'f FontMetrics \<Rightarrow> ('f, 'c) UniformTextSection \<Rightarrow> int
     \<Rightarrow> ('f, 'c) UniformTextSection \<times> ('f, 'c) UniformTextSection" where
  "split_section fm s indexToBreakAt =
     (let (stay, moved) = splitAtoms fm (font s) (passwordChar s) indexToBreakAt 0 (atoms s)
      in (s\<lparr>atoms := stay\<rparr>,
          \<lparr>font = font s, colour = colour s, atoms = moved, passwordChar = passwordChar s\<rparr>))"

definition appendAllText :: "('f, 'c) UniformTextSection \<Rightarrow> string" where
  "appendAllText s = concat (map atomText (atoms s))"

fun appendSubstringAtoms :: "Range \<Rightarrow> int \<Rightarrow> TextAtom list \<Rightarrow> string" where
  "appendSubstringAtoms r index [] = []"
| "appendSubstringAtoms r index (atom # rest) =
     (let nextIndex = index + uint (numChars atom) in
      if getStart r < nextIndex then
        (if getEnd r \<le> index then []
         else
           (let rr = getIntersectionWith (rangeMinus r index) (Range_int 0 (uint (numChars atom)))
            in (if \<not> isEmptyRange rr then substring (atomText atom) (getStart rr) (getEnd rr)
                else [])
               @ appendSubstringAtoms r nextIndex rest))
      else appendSubstringAtoms r nextIndex rest)"

definition appendSubstring :: "('f, 'c) UniformTextSection \<Rightarrow> Range \<Rightarrow> string" where
  "appendSubstring s r = appendSubstringAtoms r 0 (atoms s)"

definition getTotalLength :: "('f, 'c) UniformTextSection \<Rightarrow> int" where
  "getTotalLength s = sum_list (map (\<lambda>a. uint (numChars a)) (atoms s))"

section \<open>The editor\<close>

text \<open>
  The undoable actions keep what the C++ structs keep, in the order of their members.
\<close>

datatype ('f, 'c) UndoableAction =
    InsertAction string int int int 'f 'c
  | RemoveAction Range int int "('f, 'c) UniformTextSection list"

text \<open>
  Modelled from the spec: \<open>juce::UndoManager\<close> is library code, not under src/. Its
  state is the list of transactions, the number of them that are performed
  (\<open>nextIndex_um\<close>: those before it can be undone, those from it on redone), and the flag
  that the next action opens a new transaction. The cost cap and the least number of
  transactions kept are the library's defaults, which the editor never changes.
\<close>

record ('f, 'c) UndoManager =
  transactions :: "('f, 'c) UndoableAction list list"
  nextIndex_um :: nat
  newTransaction_um :: bool

text \<open>
  The part of the editor's state the operations on the text read and write. \<open>enabled\<close>
  is \<open>Component::isEnabled()\<close>; \<open>totalNumChars\<close> is the cache, stale when negative.
  Repainting, the viewport, listeners and the time of the last transaction are left out.
\<close>

record ('f, 'c) UnicodeTextEditor =
  sections :: "('f, 'c) UniformTextSection list"
  totalNumChars :: int
  caretPosition :: int
  selection :: Range
  readOnly :: bool
  enabled :: bool
  passwordCharacter :: char
  valueTextNeedsUpdating :: bool
  undoManager :: "('f, 'c) UndoManager"

definition maxActionsPerTransaction :: int where
  "maxActionsPerTransaction = 100"

definition isReadOnly :: "('f, 'c) UnicodeTextEditor \<Rightarrow> bool" where
  "isReadOnly ed = (readOnly ed \<or> \<not> enabled ed)"

text \<open>\<open>getUndoManager\<close>: \<open>False\<close> stands for \<open>nullptr\<close>, \<open>True\<close> for \<open>&undoManager\<close>.\<close>

definition getUndoManager :: "('f, 'c) UnicodeTextEditor \<Rightarrow> bool" where
  "getUndoManager ed = (if readOnly ed then False else True)"

text \<open>\<open>getTotalNumChars\<close> is const but fills the mutable cache: it returns the editor too.\<close>

definition getTotalNumChars :: "('f, 'c) UnicodeTextEditor \<Rightarrow> int \<times> ('f, 'c) UnicodeTextEditor" where
  "getTotalNumChars ed =
     (if totalNumChars ed < 0 then
        (let t = sum_list (map getTotalLength (sections ed)) in (t, ed\<lparr>totalNumChars := t\<rparr>))
      else (totalNumChars ed, ed))"

definition getText_editor :: "('f, 'c) UnicodeTextEditor \<Rightarrow> string" where
  "getText_editor ed = concat (map appendAllText (sections ed))"

fun textInRangeLoop :: "Range \<Rightarrow> int \<Rightarrow> ('f, 'c) UniformTextSection list \<Rightarrow> string" where
  "textInRangeLoop r index [] = []"
| "textInRangeLoop r index (s # ss) =
     (let nextIndex = index + getTotalLength s in
      if getStart r < nextIndex then
        (if getEnd r \<le> index then []
         else appendSubstring s (rangeMinus r index) @ textInRangeLoop r nextIndex ss)
      else textInRangeLoop r nextIndex ss)"

definition getTextInRange ::
  "Range \<Rightarrow> ('f, 'c) UnicodeTextEditor \<Rightarrow> string \<times> ('f, 'c) UnicodeTextEditor" where
  "getTextInRange r ed =
     (if isEmptyRange r then ([], ed)
      else
        (let ed1 = snd (getTotalNumChars ed)
         in (textInRangeLoop r 0 (sections ed1), ed1)))"

subsection \<open>Caret\<close>

definition moveCaret :: "int \<Rightarrow> ('f, 'c) UnicodeTextEditor \<Rightarrow> ('f, 'c) UnicodeTextEditor" where
  "moveCaret newCaretPos ed =
     (let (pos, ed1) =
            (if newCaretPos < 0 then (0, ed)
             else (let (t, ed') = getTotalNumChars ed in (min newCaretPos t, ed')))
      in if pos \<noteq> caretPosition ed1 then ed1\<lparr>caretPosition := pos\<rparr> else ed1)"

text \<open>\<open>moveCaretTo (newPosition, false)\<close>: the modelled code never selects.\<close>

definition moveCaretTo :: "int \<Rightarrow> ('f, 'c) UnicodeTextEditor \<Rightarrow> ('f, 'c) UnicodeTextEditor" where
  "moveCaretTo newPosition ed =
     (let ed1 = moveCaret newPosition ed
      in ed1\<lparr>selection := Range_int (caretPosition ed1) (caretPosition ed1)\<rparr>)"

subsection \<open>\<open>splitSection\<close> and \<open>coalesceSimilarSections\<close>\<close>

text \<open>
  \<open>splitSection (i, n)\<close> replaces section \<open>i\<close> by the two sections of its \<open>split (n)\<close>.
  The loops below run over the list of sections from section \<open>i\<close> on, so the section
  at \<open>i\<close> is the head of the list and the call is \<open>split_section\<close> on the head.
\<close>

text \<open>
  The loop compares the sections at \<open>i\<close> and \<open>i + 1\<close>; after a merge it stays at \<open>i\<close>,
  otherwise it moves on, and never looks back at the sections before \<open>i\<close>.
\<close>

fun coalesceSimilarSections ::
  "'f FontMetrics \<Rightarrow> ('f, 'c) UniformTextSection list \<Rightarrow> ('f, 'c) UniformTextSection list" where
  "coalesceSimilarSections fm (s1 # s2 # rest) =
     (if font s1 = font s2 \<and> colour s1 = colour s2
      then coalesceSimilarSections fm (append_section fm s1 s2 # rest)
      else s1 # coalesceSimilarSections fm (s2 # rest))"
| "coalesceSimilarSections fm secs = secs"

subsection \<open>\<open>insert\<close>, \<open>reinsert\<close> and \<open>remove\<close> without an undo manager\<close>

text \<open>
  The loop of \<open>insert\<close> and of \<open>reinsert\<close>, which differ in what they insert: one new
  section, or the copies of the sections of an undone removal. The result is the new
  list and the value of \<open>nextIndex\<close> when the loop ends, by \<open>break\<close> or at the last section.
\<close>

fun insertLoop ::
  "'f FontMetrics \<Rightarrow> ('f, 'c) UniformTextSection list \<Rightarrow> int \<Rightarrow> int \<Rightarrow> int
     \<Rightarrow> ('f, 'c) UniformTextSection list \<Rightarrow> ('f, 'c) UniformTextSection list \<times> int" where
  "insertLoop fm new insertIndex index nextIndex [] = ([], nextIndex)"
| "insertLoop fm new insertIndex index nextIndex (x # xs) =
     (let nextIndex' = index + getTotalLength x in
      if insertIndex = index then (new @ x # xs, nextIndex')
      else if insertIndex > index \<and> insertIndex < nextIndex' then
        (case split_section fm x (insertIndex - index) of
           (a, b) \<Rightarrow> (a # new @ b # xs, nextIndex'))
      else
        (case insertLoop fm new insertIndex nextIndex' nextIndex' xs of
           (ys, n) \<Rightarrow> (x # ys, n)))"

definition insertSections ::
  "'f FontMetrics \<Rightarrow> ('f, 'c) UniformTextSection list \<Rightarrow> int
     \<Rightarrow> ('f, 'c) UniformTextSection list \<Rightarrow> ('f, 'c) UniformTextSection list" where
  "insertSections fm new insertIndex secs =
     (case insertLoop fm new insertIndex 0 0 secs of
        (ys, nextIndex) \<Rightarrow> if nextIndex = insertIndex then ys @ new else ys)"

text \<open>
  The branch of \<open>insert\<close> taken when \<open>um\<close> is \<open>nullptr\<close>. The two calls of
  \<open>repaintText\<close> read \<open>getTotalNumChars()\<close>, which fills the cache.
\<close>

definition insertDirect ::
  "'f FontMetrics \<Rightarrow> string \<Rightarrow> int \<Rightarrow> 'f \<Rightarrow> 'c \<Rightarrow> int \<Rightarrow> ('f, 'c) UnicodeTextEditor
     \<Rightarrow> ('f, 'c) UnicodeTextEditor" where
  "insertDirect fm txt insertIndex f col caretPositionToMoveTo ed =
     (let ed0 = snd (getTotalNumChars ed);
          new = newUniformTextSection fm txt f col (passwordCharacter ed0);
          secs = insertSections fm [new] insertIndex (sections ed0);
          ed1 = ed0\<lparr>sections := coalesceSimilarSections fm secs, totalNumChars := - 1,
                    valueTextNeedsUpdating := True\<rparr>;
          ed2 = moveCaretTo caretPositionToMoveTo ed1
      in snd (getTotalNumChars ed2))"

definition reinsert ::
  "'f FontMetrics \<Rightarrow> int \<Rightarrow> ('f, 'c) UniformTextSection list \<Rightarrow> ('f, 'c) UnicodeTextEditor
     \<Rightarrow> ('f, 'c) UnicodeTextEditor" where
  "reinsert fm insertIndex sectionsToInsert ed =
     ed\<lparr>sections := coalesceSimilarSections fm
                        (insertSections fm sectionsToInsert insertIndex (sections ed)),
        totalNumChars := - 1, valueTextNeedsUpdating := True\<rparr>"

text \<open>
  The first loop of \<open>remove\<close> splits the sections at the two ends of the range. After a
  split it decrements \<open>i\<close>, so the next round looks at the same section again, now cut.
  The three definitions before it are the measure of its termination proof.
\<close>

definition pointsAhead :: "Range \<Rightarrow> int \<Rightarrow> nat" where
  "pointsAhead r index =
     (if index < getStart r then 1 else 0) + (if index < getEnd r then 1 else 0)"

definition pointsInside :: "Range \<Rightarrow> int \<Rightarrow> int \<Rightarrow> nat" where
  "pointsInside r index len =
     (if index < getStart r \<and> getStart r < index + len then 1 else 0)
     + (if index < getEnd r \<and> getEnd r < index + len then 1 else 0)"

definition endsAtPoint :: "Range \<Rightarrow> int \<Rightarrow> ('f, 'c) UniformTextSection list \<Rightarrow> bool" where
  "endsAtPoint r index xs =
     (case xs of [] \<Rightarrow> False
      | x # _ \<Rightarrow> 0 < getTotalLength x \<and>
           (index + getTotalLength x = getStart r \<or> index + getTotalLength x = getEnd r))"

definition splitMeasure ::
  "'f FontMetrics \<times> Range \<times> int \<times> ('f, 'c) UniformTextSection list \<Rightarrow> nat \<times> nat \<times> nat" where
  "splitMeasure = (\<lambda>(fm, r, index, xs).
     (pointsAhead r index,
      if endsAtPoint r index xs then 0 else 1,
      if endsAtPoint r index xs then pointsInside r index (getTotalLength (hd xs))
      else length xs))"

lemma getTotalLength_nonneg: "0 \<le> getTotalLength s"
  unfolding getTotalLength_def by (rule sum_list_nonneg) auto

lemma splitAtoms_stay_length:
  "index \<le> k \<Longrightarrow> k < index + sum_list (map (\<lambda>a. uint (numChars a)) as) \<Longrightarrow>
   sum_list (map (\<lambda>a. uint (numChars a)) (fst (splitAtoms fm f pc k index as))) = k - index"
proof (induction as arbitrary: index)
  case Nil
  then show ?case by simp
next
  case (Cons atom rest)
  let ?next = "index + uint (numChars atom)"
  show ?case
  proof (cases "index = k")
    case True
    then show ?thesis by simp
  next
    case ne: False
    show ?thesis
    proof (cases "k < ?next")
      case True
      have b: "uint (numChars atom) < 65536"
        using uint_lt2p [of "numChars atom"] by simp
      have "uint (word_of_int (k - index) :: 16 word) = k - index"
        unfolding uint_word_of_int using True Cons.prems(1) b by simp
      then show ?thesis using True ne Cons.prems(1) by (simp add: Let_def)
    next
      case False
      then have "sum_list (map (\<lambda>a. uint (numChars a))
                   (fst (splitAtoms fm f pc k ?next rest))) = k - ?next"
        using Cons.IH [of ?next] Cons.prems by simp
      then show ?thesis using False ne Cons.prems(1)
        by (simp add: Let_def case_prod_beta)
    qed
  qed
qed

lemma getTotalLength_split_fst:
  "0 < k \<Longrightarrow> k < getTotalLength s \<Longrightarrow> getTotalLength (fst (split_section fm s k)) = k"
  using splitAtoms_stay_length [of 0 k "atoms s" fm "font s" "passwordChar s"]
  by (simp add: getTotalLength_def split_section_def case_prod_beta)

function splitAtRangeEnds ::
  "'f FontMetrics \<Rightarrow> Range \<Rightarrow> int \<Rightarrow> ('f, 'c) UniformTextSection list
     \<Rightarrow> ('f, 'c) UniformTextSection list" where
  "splitAtRangeEnds fm r index [] = []"
| "splitAtRangeEnds fm r index (x # xs) =
     (let nextIndex = index + getTotalLength x in
      if getStart r > index \<and> getStart r < nextIndex then
        (case split_section fm x (getStart r - index) of
           (a, b) \<Rightarrow> splitAtRangeEnds fm r index (a # b # xs))
      else if getEnd r > index \<and> getEnd r < nextIndex then
        (case split_section fm x (getEnd r - index) of
           (a, b) \<Rightarrow> splitAtRangeEnds fm r index (a # b # xs))
      else if nextIndex > getEnd r then x # xs
      else x # splitAtRangeEnds fm r nextIndex xs)"
  by pat_completeness auto
termination
proof (relation "inv_image (less_than <*lex*> less_than <*lex*> less_than) splitMeasure",
    goal_cases)
  case 1
  show ?case by (intro wf_inv_image wf_lex_prod wf_less_than)
next
  case (2 fm r index x xs nextIndex a b)
  then have k: "0 < getStart r - index" "getStart r - index < getTotalLength x" by auto
  from 2 have a: "a = fst (split_section fm x (getStart r - index))" by (metis fst_conv)
  have la: "getTotalLength a = getStart r - index"
    unfolding a by (rule getTotalLength_split_fst [OF k])
  have e: "endsAtPoint r index (a # b # xs)"
    using la k by (simp add: endsAtPoint_def)
  show ?case using e la k 2
    by (auto simp: splitMeasure_def pointsInside_def endsAtPoint_def)
next
  case (3 fm r index x xs nextIndex a b)
  then have k: "0 < getEnd r - index" "getEnd r - index < getTotalLength x" by auto
  from 3 have a: "a = fst (split_section fm x (getEnd r - index))" by (metis fst_conv)
  have la: "getTotalLength a = getEnd r - index"
    unfolding a by (rule getTotalLength_split_fst [OF k])
  have e: "endsAtPoint r index (a # b # xs)"
    using la k by (simp add: endsAtPoint_def)
  show ?case using e la k 3
    by (auto simp: splitMeasure_def pointsInside_def endsAtPoint_def)
next
  case (4 fm r index x xs nextIndex)
  have nn: "0 \<le> getTotalLength x" by (rule getTotalLength_nonneg)
  show ?case
  proof (cases "endsAtPoint r index (x # xs)")
    case True
    then show ?thesis using 4 nn
      by (auto simp: splitMeasure_def pointsAhead_def endsAtPoint_def)
  next
    case False
    then show ?thesis using 4 nn
      by (auto simp: splitMeasure_def pointsAhead_def)
  qed
qed

declare splitAtRangeEnds.simps [simp del]

text \<open>The loop that collects the copies of the sections inside the range, for the undo.\<close>

fun removedSectionsLoop ::
  "Range \<Rightarrow> int \<Rightarrow> ('f, 'c) UniformTextSection list \<Rightarrow> ('f, 'c) UniformTextSection list" where
  "removedSectionsLoop r index [] = []"
| "removedSectionsLoop r index (x # xs) =
     (if getEnd r \<le> getStart r then []
      else
        (let nextIndex = index + getTotalLength x in
         (if getStart r \<le> index \<and> getEnd r \<ge> nextIndex then [x] else [])
         @ removedSectionsLoop r nextIndex xs))"

text \<open>The loop that deletes the sections inside the range.\<close>

fun removeLoop ::
  "Range \<Rightarrow> int \<Rightarrow> ('f, 'c) UniformTextSection list \<Rightarrow> ('f, 'c) UniformTextSection list" where
  "removeLoop remainingRange index [] = []"
| "removeLoop remainingRange index (x # xs) =
     (let nextIndex = index + getTotalLength x in
      if getStart remainingRange \<le> index \<and> getEnd remainingRange \<ge> nextIndex then
        (let remaining' = setEnd remainingRange (getEnd remainingRange - (nextIndex - index))
         in if isEmptyRange remaining' then xs else removeLoop remaining' index xs)
      else x # removeLoop remainingRange nextIndex xs)"

text \<open>\<open>remove\<close> called with \<open>um = nullptr\<close>.\<close>

definition removeDirect ::
  "'f FontMetrics \<Rightarrow> Range \<Rightarrow> int \<Rightarrow> ('f, 'c) UnicodeTextEditor \<Rightarrow> ('f, 'c) UnicodeTextEditor" where
  "removeDirect fm r caretPositionToMoveTo ed =
     (if \<not> isEmptyRange r then
        (let secs = removeLoop r 0 (splitAtRangeEnds fm r 0 (sections ed));
             ed1 = ed\<lparr>sections := coalesceSimilarSections fm secs, totalNumChars := - 1,
                      valueTextNeedsUpdating := True\<rparr>;
             ed2 = moveCaretTo caretPositionToMoveTo ed1
         in snd (getTotalNumChars ed2))
      else ed)"

subsection \<open>The undoable actions\<close>

text \<open>
  \<open>InsertAction::perform\<close> and \<open>RemoveAction::perform\<close> call \<open>insert\<close> and \<open>remove\<close> with
  \<open>nullptr\<close> for the undo manager; \<open>InsertAction::undo\<close> removes the range the text was
  inserted at, \<open>RemoveAction::undo\<close> reinserts the kept sections at the start of the
  range. All four return \<open>true\<close>.
\<close>

fun performAction ::
  "'f FontMetrics \<Rightarrow> ('f, 'c) UndoableAction \<Rightarrow> ('f, 'c) UnicodeTextEditor
     \<Rightarrow> ('f, 'c) UnicodeTextEditor" where
  "performAction fm (InsertAction txt insertIndex oldCaretPos newCaretPos f col) ed =
     (if txt \<noteq> [] then insertDirect fm txt insertIndex f col newCaretPos ed else ed)"
| "performAction fm (RemoveAction r oldCaretPos newCaretPos removedSections) ed =
     removeDirect fm r newCaretPos ed"

fun undoAction ::
  "'f FontMetrics \<Rightarrow> ('f, 'c) UndoableAction \<Rightarrow> ('f, 'c) UnicodeTextEditor
     \<Rightarrow> ('f, 'c) UnicodeTextEditor" where
  "undoAction fm (InsertAction txt insertIndex oldCaretPos newCaretPos f col) ed =
     removeDirect fm (Range_int insertIndex (insertIndex + int (length txt))) oldCaretPos ed"
| "undoAction fm (RemoveAction r oldCaretPos newCaretPos removedSections) ed =
     moveCaretTo oldCaretPos (reinsert fm (getStart r) removedSections ed)"

fun getSizeInUnits :: "('f, 'c) UndoableAction \<Rightarrow> int" where
  "getSizeInUnits (InsertAction txt insertIndex oldCaretPos newCaretPos f col) =
     int (length txt) + 16"
| "getSizeInUnits (RemoveAction r oldCaretPos newCaretPos removedSections) =
     16 + sum_list (map getTotalLength removedSections)"

subsection \<open>The undo manager\<close>

text \<open>
  Modelled from the spec: the operations of \<open>juce::UndoManager\<close> the editor calls.
  \<open>perform\<close> applies the action, adds it to the open transaction or opens a new one,
  forgets the transactions that could have been redone and evicts the oldest
  transactions while the total cost is above the cap. \<open>undo\<close> applies the inverses of
  the last performed transaction in reverse order, \<open>redo\<close> applies the next transaction
  forwards; both report whether there was a transaction, and close the open one.
\<close>

definition maxNumUnitsToKeep :: int where
  "maxNumUnitsToKeep = 30000"

definition minimumTransactionsToKeep :: nat where
  "minimumTransactionsToKeep = 30"

definition totalUnitsStored :: "('f, 'c) UndoableAction list list \<Rightarrow> int" where
  "totalUnitsStored ts = sum_list (map (\<lambda>t. sum_list (map getSizeInUnits t)) ts)"

definition getCurrentSet :: "('f, 'c) UndoManager \<Rightarrow> ('f, 'c) UndoableAction list option" where
  "getCurrentSet um =
     (if 0 < nextIndex_um um \<and> nextIndex_um um \<le> length (transactions um)
      then Some (transactions um ! (nextIndex_um um - 1)) else None)"

definition getNextSet :: "('f, 'c) UndoManager \<Rightarrow> ('f, 'c) UndoableAction list option" where
  "getNextSet um =
     (if nextIndex_um um < length (transactions um)
      then Some (transactions um ! nextIndex_um um) else None)"

definition getNumActionsInCurrentTransaction :: "('f, 'c) UndoManager \<Rightarrow> int" where
  "getNumActionsInCurrentTransaction um =
     (if \<not> newTransaction_um um then
        (case getCurrentSet um of Some t \<Rightarrow> int (length t) | None \<Rightarrow> 0)
      else 0)"

definition beginNewTransaction :: "('f, 'c) UndoManager \<Rightarrow> ('f, 'c) UndoManager" where
  "beginNewTransaction um = um\<lparr>newTransaction_um := True\<rparr>"

fun dropOldTransactionsIfTooLarge ::
  "nat \<Rightarrow> ('f, 'c) UndoableAction list list \<Rightarrow> nat \<times> ('f, 'c) UndoableAction list list" where
  "dropOldTransactionsIfTooLarge n [] = (n, [])"
| "dropOldTransactionsIfTooLarge n (t # ts) =
     (if 0 < n \<and> totalUnitsStored (t # ts) > maxNumUnitsToKeep
         \<and> length (t # ts) > minimumTransactionsToKeep
      then dropOldTransactionsIfTooLarge (n - 1) ts
      else (n, t # ts))"

definition perform ::
  "'f FontMetrics \<Rightarrow> ('f, 'c) UndoableAction \<Rightarrow> ('f, 'c) UnicodeTextEditor
     \<Rightarrow> ('f, 'c) UnicodeTextEditor" where
  "perform fm action ed =
     (let ed1 = performAction fm action ed;
          um = undoManager ed1;
          n = nextIndex_um um;
          (ts, n') =
            (case getCurrentSet um of
               Some t \<Rightarrow>
                 (if \<not> newTransaction_um um
                  then ((transactions um)[n - 1 := t @ [action]], n)
                  else (take n (transactions um) @ [[action]], Suc n))
             | None \<Rightarrow> (take n (transactions um) @ [[action]], Suc n));
          (n'', ts') = dropOldTransactionsIfTooLarge n' (take n' ts)
      in ed1\<lparr>undoManager :=
               um\<lparr>transactions := ts', nextIndex_um := n'', newTransaction_um := False\<rparr>\<rparr>)"

definition undo_um ::
  "'f FontMetrics \<Rightarrow> ('f, 'c) UnicodeTextEditor \<Rightarrow> bool \<times> ('f, 'c) UnicodeTextEditor" where
  "undo_um fm ed =
     (case getCurrentSet (undoManager ed) of
        None \<Rightarrow> (False, ed)
      | Some t \<Rightarrow>
          (let ed1 = foldl (\<lambda>e a. undoAction fm a e) ed (rev t);
               um = undoManager ed1
           in (True, ed1\<lparr>undoManager :=
                          beginNewTransaction (um\<lparr>nextIndex_um := nextIndex_um um - 1\<rparr>)\<rparr>)))"

definition redo_um ::
  "'f FontMetrics \<Rightarrow> ('f, 'c) UnicodeTextEditor \<Rightarrow> bool \<times> ('f, 'c) UnicodeTextEditor" where
  "redo_um fm ed =
     (case getNextSet (undoManager ed) of
        None \<Rightarrow> (False, ed)
      | Some t \<Rightarrow>
          (let ed1 = foldl (\<lambda>e a. performAction fm a e) ed t;
               um = undoManager ed1
           in (True, ed1\<lparr>undoManager :=
                          beginNewTransaction (um\<lparr>nextIndex_um := Suc (nextIndex_um um)\<rparr>)\<rparr>)))"

subsection \<open>\<open>insert\<close>, \<open>remove\<close>, \<open>undo\<close> and \<open>redo\<close>\<close>

definition newTransaction :: "('f, 'c) UnicodeTextEditor \<Rightarrow> ('f, 'c) UnicodeTextEditor" where
  "newTransaction ed = ed\<lparr>undoManager := beginNewTransaction (undoManager ed)\<rparr>"

text \<open>
  \<open>um\<close> is \<open>True\<close> when the caller passes the editor's undo manager, \<open>False\<close> when it
  passes \<open>nullptr\<close>.
\<close>

definition insert_editor ::
  "'f FontMetrics \<Rightarrow> string \<Rightarrow> int \<Rightarrow> 'f \<Rightarrow> 'c \<Rightarrow> bool \<Rightarrow> int \<Rightarrow> ('f, 'c) UnicodeTextEditor
     \<Rightarrow> ('f, 'c) UnicodeTextEditor" where
  "insert_editor fm txt insertIndex f col um caretPositionToMoveTo ed =
     (if txt \<noteq> [] then
        (if um then
           (let ed1 = (if getNumActionsInCurrentTransaction (undoManager ed)
                            > maxActionsPerTransaction
                       then newTransaction ed else ed)
            in perform fm (InsertAction txt insertIndex (caretPosition ed1)
                             caretPositionToMoveTo f col) ed1)
         else insertDirect fm txt insertIndex f col caretPositionToMoveTo ed)
      else ed)"

definition remove_editor ::
  "'f FontMetrics \<Rightarrow> Range \<Rightarrow> bool \<Rightarrow> int \<Rightarrow> ('f, 'c) UnicodeTextEditor
     \<Rightarrow> ('f, 'c) UnicodeTextEditor" where
  "remove_editor fm r um caretPositionToMoveTo ed =
     (if \<not> isEmptyRange r then
        (if um then
           (let ed1 = ed\<lparr>sections := splitAtRangeEnds fm r 0 (sections ed)\<rparr>;
                removedSections = removedSectionsLoop r 0 (sections ed1);
                ed2 = (if getNumActionsInCurrentTransaction (undoManager ed1)
                            > maxActionsPerTransaction
                       then newTransaction ed1 else ed1)
            in perform fm (RemoveAction r (caretPosition ed2) caretPositionToMoveTo
                             removedSections) ed2)
         else removeDirect fm r caretPositionToMoveTo ed)
      else ed)"

definition undoOrRedo ::
  "'f FontMetrics \<Rightarrow> bool \<Rightarrow> ('f, 'c) UnicodeTextEditor \<Rightarrow> bool \<times> ('f, 'c) UnicodeTextEditor" where
  "undoOrRedo fm shouldUndo ed =
     (if \<not> isReadOnly ed then
        (let ed1 = newTransaction ed;
             (done, ed2) = (if shouldUndo then undo_um fm ed1 else redo_um fm ed1)
         in if done then (True, ed2) else (False, ed2))
      else (False, ed))"

definition undo :: "'f FontMetrics \<Rightarrow> ('f, 'c) UnicodeTextEditor \<Rightarrow> bool \<times> ('f, 'c) UnicodeTextEditor" where
  "undo fm ed = undoOrRedo fm True ed"

definition redo :: "'f FontMetrics \<Rightarrow> ('f, 'c) UnicodeTextEditor \<Rightarrow> bool \<times> ('f, 'c) UnicodeTextEditor" where
  "redo fm ed = undoOrRedo fm False ed"

section \<open>The layout iterator\<close>

unbundle bit_operations_syntax


text \<open>\<open>juce::roundToInt\<close>: the nearest \<open>int\<close>, the even one of two that are equally near.\<close>

definition roundToInt :: "rat \<Rightarrow> int" where
  "roundToInt x =
     (let f = \<lfloor>x\<rfloor>; d = x - of_int f
      in if d < 1 / 2 then f else if 1 / 2 < d then f + 1 else if even f then f else f + 1)"

text \<open>
  A \<open>float\<close> is an IEEE binary32 number: a rational number here, and each operation rounds
  its exact result to the nearest binary32 number, ties to even. The unit in the last
  place of \<open>x\<close> is 2 to the \<open>ulpExponent x\<close>: 23 below the binary exponent of \<open>x\<close>, and
  not below -149, where the subnormal numbers are. \<open>exponentFrom\<close> looks for the binary
  exponent from -150 upwards, as far as 128; overflow to infinity is left out.
  \<open>a += b * c\<close> is a product and a sum, each rounded.
\<close>

fun exponentFrom :: "nat \<Rightarrow> int \<Rightarrow> rat \<Rightarrow> int" where
  "exponentFrom 0 k x = k"
| "exponentFrom (Suc n) k x = (if x < 2 powi (k + 1) then k else exponentFrom n (k + 1) x)"

definition ulpExponent :: "rat \<Rightarrow> int" where
  "ulpExponent x = max (exponentFrom 278 (- 150) \<bar>x\<bar> - 23) (- 149)"

definition float32 :: "rat \<Rightarrow> rat" where
  "float32 x = of_int (roundToInt (x / 2 powi ulpExponent x)) * 2 powi ulpExponent x"






record ('f, 'c) Iterator =
  indexInText :: int
  lineY :: rat
  lineHeight :: rat
  maxDescent :: rat
  atomX :: rat
  atomRight :: rat
  atom :: "TextAtom option"
  atomIsLongAtom :: bool
  sections_it :: "('f, 'c) UniformTextSection list"
  currentSection :: "nat option"
  sectionIndex :: nat
  atomIndex :: nat
  justification :: int
  bottomRight :: "rat \<times> rat"
  wordWrapWidth :: rat
  passwordCharacter_it :: char
  lineSpacing :: rat
  underlineWhitespace :: bool
  longAtom :: TextAtom


















section \<open>What the claims speak of\<close>

text \<open>A metrics record for concrete inputs: every character is one unit wide.\<close>

definition fixedPitch :: "unit FontMetrics" where
  "fixedPitch = \<lparr>getStringWidthFloat = (\<lambda>f s. of_nat (length s)), getHeight = (\<lambda>f. 1),
                  getDescent = (\<lambda>f. 0),
                  getGlyphRights = (\<lambda>f s. map of_nat [1..<Suc (length s)])\<rparr>"

text \<open>A carriage return immediately followed by a line feed, somewhere in the text.\<close>

fun containsCRLF :: "string \<Rightarrow> bool" where
  "containsCRLF (c # d # cs) = ((c = CR \<and> d = LF) \<or> containsCRLF (d # cs))"
| "containsCRLF cs = False"

text \<open>An atom with a new-line character in its text has no other character.\<close>

definition newlineAlone :: "TextAtom \<Rightarrow> bool" where
  "newlineAlone a =
     ((CR \<in> set (atomText a) \<or> LF \<in> set (atomText a)) \<longrightarrow> length (atomText a) = 1)"

text \<open>
  The atoms cover the fragment: their texts concatenate to it, their counts add up to
  its length, and no atom holds a new-line character together with another character.
\<close>

definition coversFragment :: "TextAtom list \<Rightarrow> string \<Rightarrow> bool" where
  "coversFragment as frag =
     (concat (map atomText as) = frag
      \<and> sum_list (map (\<lambda>a. uint (numChars a)) as) = int (length frag)
      \<and> list_all newlineAlone as)"

text \<open>No atom has a text of 65536 characters or more.\<close>

definition shortAtoms :: "TextAtom list \<Rightarrow> bool" where
  "shortAtoms as = list_all (\<lambda>a. length (atomText a) < 65536) as"

text \<open>
  The invariant of an atom: its count is the length of its text, and the text is not
  empty. Every atom the tokenizer makes of fewer than 65536 characters has it.
\<close>

definition atom_ok :: "TextAtom \<Rightarrow> bool" where
  "atom_ok a = (uint (numChars a) = int (length (atomText a)) \<and> atomText a \<noteq> [])"

text \<open>The invariant of a section: every atom has the invariant of an atom.\<close>

definition section_ok :: "('f, 'c) UniformTextSection \<Rightarrow> bool" where
  "section_ok s = list_all atom_ok (atoms s)"

text \<open>The text and the length of a list of atoms, as \<open>appendAllText\<close> and \<open>getTotalLength\<close> compute them.\<close>

definition atomsText :: "TextAtom list \<Rightarrow> string" where
  "atomsText as = concat (map atomText as)"

definition atomsLength :: "TextAtom list \<Rightarrow> int" where
  "atomsLength as = sum_list (map (\<lambda>a. uint (numChars a)) as)"

text \<open>The width of the atom is the measured width of its text in the style of the section.\<close>

definition remeasured :: "'f FontMetrics \<Rightarrow> ('f, 'c) UniformTextSection \<Rightarrow> TextAtom \<Rightarrow> bool" where
  "remeasured fm s a = (width a = getStringWidthFloat fm (font s) (getText a (passwordChar s)))"

text \<open>No two neighbours in the list have the same font and the same colour.\<close>

fun noSimilarNeighbours :: "('f, 'c) UniformTextSection list \<Rightarrow> bool" where
  "noSimilarNeighbours (s1 # s2 # rest) =
     (\<not> (font s1 = font s2 \<and> colour s1 = colour s2) \<and> noSimilarNeighbours (s2 # rest))"
| "noSimilarNeighbours secs = True"

text \<open>The text and the length of a list of sections, as \<open>getText\<close> and \<open>getTotalNumChars\<close> compute them.\<close>

definition sectionsText :: "('f, 'c) UniformTextSection list \<Rightarrow> string" where
  "sectionsText secs = concat (map appendAllText secs)"

definition sectionsLength :: "('f, 'c) UniformTextSection list \<Rightarrow> int" where
  "sectionsLength secs = sum_list (map getTotalLength secs)"

text \<open>A section made of one word: the letter a, \<open>n\<close> times.\<close>

definition wordSection :: "nat \<Rightarrow> (unit, unit) UniformTextSection" where
  "wordSection n =
     newUniformTextSection fixedPitch (replicate n (CHR ''a'')) () () (CHR 0x00)"

text \<open>An editor as it is constructed: no text, nothing to undo, not read-only.\<close>

definition emptyEditor :: "(unit, unit) UnicodeTextEditor" where
  "emptyEditor =
     \<lparr>sections = [], totalNumChars = 0, caretPosition = 0, selection = Range_int 0 0,
      readOnly = False, enabled = True, passwordCharacter = CHR 0x00,
      valueTextNeedsUpdating = False,
      undoManager = \<lparr>transactions = [], nextIndex_um = 0, newTransaction_um = True\<rparr>\<rparr>"

text \<open>The editor after the word hello was typed into the empty editor.\<close>

definition helloEditor :: "(unit, unit) UnicodeTextEditor" where
  "helloEditor = insert_editor fixedPitch ''hello'' 0 () () True 5 emptyEditor"

text \<open>
  The invariant of a document: every section has the invariant of a section and at
  least one atom. The editor makes sections from text that is not empty and splits them
  strictly inside, so no section of a document is without atoms.
\<close>

definition doc_ok :: "('f, 'c) UniformTextSection list \<Rightarrow> bool" where
  "doc_ok secs = list_all (\<lambda>s. section_ok s \<and> atoms s \<noteq> []) secs"

text \<open>
  No section of the list, which starts at \<open>index\<close>, has the position \<open>p\<close> strictly inside.
\<close>

fun cutAt :: "int \<Rightarrow> int \<Rightarrow> ('f, 'c) UniformTextSection list \<Rightarrow> bool" where
  "cutAt p index [] = True"
| "cutAt p index (x # xs) =
     (\<not> (index < p \<and> p < index + getTotalLength x) \<and> cutAt p (index + getTotalLength x) xs)"

text \<open>
  The undo path of \<open>remove\<close> followed by the undo of its action: the sections are split
  at the ends of the range, the sections inside the range are copied into a
  \<open>RemoveAction\<close>, the action is performed, and then undone.
\<close>

definition removeThenUndo ::
  "'f FontMetrics \<Rightarrow> Range \<Rightarrow> int \<Rightarrow> int \<Rightarrow> ('f, 'c) UnicodeTextEditor
     \<Rightarrow> ('f, 'c) UnicodeTextEditor" where
  "removeThenUndo fm r oldCaret newCaret ed =
     (let ed1 = ed\<lparr>sections := splitAtRangeEnds fm r 0 (sections ed)\<rparr>;
          removedSections = removedSectionsLoop r 0 (sections ed1);
          action = RemoveAction r oldCaret newCaret removedSections
      in undoAction fm action (performAction fm action ed1))"








text \<open>
  An editor that holds two lines of 32768 letters each: one section, the one the
  constructor makes of that text, and the length cache filled.
\<close>

definition twoLongLines :: "(unit, unit) UnicodeTextEditor" where
  "twoLongLines =
     emptyEditor\<lparr>sections :=
                   [newUniformTextSection fixedPitch
                      (replicate 32768 (CHR ''a'') @ LF # replicate 32768 (CHR ''a''))
                      () () (CHR 0x00)],
                 totalNumChars := 65537\<rparr>"


text \<open>\<open>x\<close> is a whole multiple of 2 to the \<open>- g\<close>.\<close>

definition dyadic :: "nat \<Rightarrow> rat \<Rightarrow> bool" where
  "dyadic g x = (of_int \<lfloor>x * 2 ^ g\<rfloor> = x * 2 ^ g)"





section \<open>The tokenizer\<close>

lemma makeAtom_take: "n \<le> length s \<Longrightarrow> makeAtom fm f pc (s @ t) n = makeAtom fm f pc s n"
  by (simp add: makeAtom_def)

lemma drop_append_le: "n \<le> length s \<Longrightarrow> drop n (s @ t) = drop n s @ t"
  by simp

lemma not_isBlank_CR [simp]: "\<not> isBlank CR" by (simp add: isBlank_def)
lemma isWhitespace_CR [simp]: "isWhitespace CR" by (simp add: isWhitespace_def CR_def)
lemma isWhitespace_LF [simp]: "isWhitespace LF" by (simp add: isWhitespace_def LF_def)
lemma CR_neq_LF [simp]: "CR \<noteq> LF" "LF \<noteq> CR" by (simp_all add: CR_def LF_def)

lemma initialiseAtoms_append_CR:
  "initialiseAtoms fm f pc (pre @ CR # r) = initialiseAtoms fm f pc pre @ initialiseAtoms fm f pc (CR # r)"
proof (induction fm f pc pre rule: initialiseAtoms.induct)
  case (1 fm f pc)
  show ?case by simp
next
  case (2 fm f pc c cs)
  show ?case
  proof (cases "isBlank c")
    case True
    let ?n = "Suc (length (takeWhile isBlank cs))"
    have tw: "takeWhile isBlank (cs @ CR # r) = takeWhile isBlank cs"
      by (simp add: takeWhile_tail)
    have le: "?n \<le> length (c # cs)" by (simp add: length_takeWhile_le)
    have "makeAtom fm f pc (c # cs @ CR # r) ?n = makeAtom fm f pc (c # cs) ?n"
      using makeAtom_take [OF le, of fm f pc "CR # r"] by simp
    moreover have "drop ?n (c # cs @ CR # r) = drop ?n (c # cs) @ CR # r"
      using le by simp
    ultimately show ?thesis
      using True 2(1) [OF True refl] tw by (simp add: Let_def)
  next
    case nb: False
    show ?thesis
    proof (cases "c = CR")
      case True
      then show ?thesis using nb 2(2,3,4)
        by (cases cs) (auto simp: makeAtom_take [of 1 "[CR]", simplified] makeAtom_def)
    next
      case ncr: False
      show ?thesis
      proof (cases "c = LF")
        case True
        then show ?thesis using nb ncr 2(5)
          by (simp add: makeAtom_def)
      next
        case nlf: False
        let ?n = "length (takeWhile (\<lambda>d. \<not> isWhitespace d) (c # cs))"
        have tw: "takeWhile (\<lambda>d. \<not> isWhitespace d) ((c # cs) @ CR # r) = takeWhile (\<lambda>d. \<not> isWhitespace d) (c # cs)"
          by (rule takeWhile_tail) simp
        have le: "?n \<le> length (c # cs)" by (rule length_takeWhile_le)
        have "makeAtom fm f pc ((c # cs) @ CR # r) ?n = makeAtom fm f pc (c # cs) ?n"
          using makeAtom_take [OF le, of fm f pc "CR # r"] by (simp del: takeWhile.simps)
        moreover have "drop ?n ((c # cs) @ CR # r) = drop ?n (c # cs) @ CR # r"
          using drop_append_le [OF le, of "CR # r"] by (simp del: takeWhile.simps)
        ultimately show ?thesis
          using nb ncr nlf 2(6) [OF nb ncr nlf refl] tw by (simp add: Let_def del: takeWhile.simps)
      qed
    qed
  qed
qed

lemma containsCRLF_Cons: "containsCRLF cs \<Longrightarrow> containsCRLF (c # cs)"
  by (cases cs) auto

lemma containsCRLF_drop: "containsCRLF (drop n s) \<Longrightarrow> containsCRLF s"
proof (induction n arbitrary: s)
  case 0
  then show ?case by simp
next
  case (Suc n)
  then show ?case by (cases s) (auto intro: containsCRLF_Cons)
qed

lemma atomText_makeAtom [simp]: "atomText (makeAtom fm f pc s n) = take n s"
  by (simp add: makeAtom_def Let_def)

lemma numChars_makeAtom [simp]: "numChars (makeAtom fm f pc s n) = of_nat n"
  by (simp add: makeAtom_def Let_def)

lemma concat_initialiseAtoms:
  "\<not> containsCRLF s \<Longrightarrow> concat (map atomText (initialiseAtoms fm f pc s)) = s"
proof (induction fm f pc s rule: initialiseAtoms.induct)
  case (1 fm f pc)
  show ?case by simp
next
  case (2 fm f pc c cs)
  have d: "\<not> containsCRLF (drop n (c # cs))" for n
    using 2(7) containsCRLF_drop by blast
  have d1: "\<not> containsCRLF cs" using d [of 1] by simp
  show ?case
  proof (cases "isBlank c")
    case True
    then show ?thesis using 2(1) [OF True refl] d [of "Suc (length (takeWhile isBlank cs))"]
      by (simp add: Let_def)
  next
    case nb: False
    show ?thesis
    proof (cases "c = CR")
      case True
      then show ?thesis using nb 2(3,4) 2(7) d1
        by (cases cs) auto
    next
      case ncr: False
      show ?thesis
      proof (cases "c = LF")
        case True
        then show ?thesis using nb ncr 2(5) d1 by simp
      next
        case nlf: False
        show ?thesis
          using nb ncr nlf 2(6) [OF nb ncr nlf refl] d [of "length (takeWhile (\<lambda>d. \<not> isWhitespace d) (c # cs))"]
          by (simp add: Let_def del: takeWhile.simps)
      qed
    qed
  qed
qed

lemma sum_initialiseAtoms:
  "\<not> containsCRLF s \<Longrightarrow> length s < 65536 \<Longrightarrow>
   sum_list (map (\<lambda>a. uint (numChars a)) (initialiseAtoms fm f pc s)) = int (length s)"
proof (induction fm f pc s rule: initialiseAtoms.induct)
  case (1 fm f pc)
  show ?case by (simp add: sum_list.Cons)
next
  case (2 fm f pc c cs)
  have d: "\<not> containsCRLF (drop n (c # cs))" for n
    using 2(7) containsCRLF_drop by blast
  have d1: "\<not> containsCRLF cs" using d [of 1] by simp
  have u: "uint (word_of_nat n :: 16 word) = int n" if "n \<le> length (c # cs)" for n
    using that 2(8) by (simp add: uint_nat unat_of_nat)
  show ?case
  proof (cases "isBlank c")
    case True
    let ?n = "Suc (length (takeWhile isBlank cs))"
    have le: "?n \<le> length (c # cs)" by (simp add: length_takeWhile_le)
    show ?thesis using True 2(1) [OF True refl] d [of ?n] 2(8) u [OF le] le
      by (simp add: Let_def sum_list.Cons)
  next
    case nb: False
    show ?thesis
    proof (cases "c = CR")
      case True
      then show ?thesis using nb 2(3,4) 2(7,8) d1
        by (cases cs) (auto simp: sum_list.Cons)
    next
      case ncr: False
      show ?thesis
      proof (cases "c = LF")
        case True
        then show ?thesis using nb ncr 2(5) d1 2(8) by (simp add: sum_list.Cons)
      next
        case nlf: False
        let ?n = "length (takeWhile (\<lambda>d. \<not> isWhitespace d) (c # cs))"
        have le: "?n \<le> length (c # cs)" by (rule length_takeWhile_le)
        show ?thesis
          using nb ncr nlf 2(6) [OF nb ncr nlf refl] d [of ?n] u [OF le] le 2(8)
          by (simp add: Let_def sum_list.Cons del: takeWhile.simps)
      qed
    qed
  qed
qed

lemma newlineAlone_run:
  assumes "\<forall>x \<in> set (takeWhile P s). x \<noteq> CR \<and> x \<noteq> LF"
  shows "newlineAlone (makeAtom fm f pc s (length (takeWhile P s)))"
proof -
  have "take (length (takeWhile P s)) s = takeWhile P s"
    by (metis takeWhile_eq_take)
  with assms show ?thesis
    by (simp add: newlineAlone_def) blast
qed

lemma newlineAlone_single: "newlineAlone (makeAtom fm f pc (c # cs) (Suc 0))"
  by (simp add: newlineAlone_def)

lemma nomix_initialiseAtoms:
  "a \<in> set (initialiseAtoms fm f pc s) \<Longrightarrow> newlineAlone a"
proof (induction fm f pc s rule: initialiseAtoms.induct)
  case (1 fm f pc)
  then show ?case by simp
next
  case (2 fm f pc c cs)
  show ?case
  proof (cases "isBlank c")
    case True
    let ?n = "Suc (length (takeWhile isBlank cs))"
    have "\<forall>x \<in> set (takeWhile isBlank (c # cs)). x \<noteq> CR \<and> x \<noteq> LF"
    proof
      fix x assume "x \<in> set (takeWhile isBlank (c # cs))"
      then have "isBlank x" by (rule set_takeWhileD [THEN conjunct2])
      then show "x \<noteq> CR \<and> x \<noteq> LF" by (simp add: isBlank_def)
    qed
    from newlineAlone_run [OF this, of fm f pc]
    have h: "newlineAlone (makeAtom fm f pc (c # cs) ?n)"
      using True by simp
    have "initialiseAtoms fm f pc (c # cs) =
            makeAtom fm f pc (c # cs) ?n # initialiseAtoms fm f pc (drop ?n (c # cs))"
      using True by (simp add: Let_def)
    with 2(7) have "a = makeAtom fm f pc (c # cs) ?n \<or> a \<in> set (initialiseAtoms fm f pc (drop ?n (c # cs)))"
      by simp
    then show ?thesis using h 2(1) [OF True refl] by blast
  next
    case nb: False
    show ?thesis
    proof (cases "c = CR")
      case True
      show ?thesis
      proof (cases cs)
        case Nil
        then have "a = makeAtom fm f pc (c # cs) (Suc 0)" using 2(7) nb True by simp
        then show ?thesis by (simp add: newlineAlone_single)
      next
        case (Cons d ds)
        show ?thesis
        proof (cases "d = LF")
          case dl: True
          have "a = makeAtom fm f pc (d # ds) (Suc 0) \<or> a \<in> set (initialiseAtoms fm f pc ds)"
            using 2(7) nb True Cons dl by simp
          then show ?thesis using 2(3) [OF nb True Cons dl] by (auto simp: newlineAlone_single)
        next
          case dl: False
          have "a = makeAtom fm f pc (c # cs) (Suc 0) \<or> a \<in> set (initialiseAtoms fm f pc cs)"
            using 2(7) nb True Cons dl by simp
          then show ?thesis using 2(4) [OF nb True Cons dl] by (auto simp: newlineAlone_single)
        qed
      qed
    next
      case ncr: False
      show ?thesis
      proof (cases "c = LF")
        case True
        have "a = makeAtom fm f pc (c # cs) (Suc 0) \<or> a \<in> set (initialiseAtoms fm f pc cs)"
          using 2(7) nb ncr True by simp
        then show ?thesis using 2(5) [OF nb ncr True] by (auto simp: newlineAlone_single)
      next
        case nlf: False
        let ?n = "length (takeWhile (\<lambda>d. \<not> isWhitespace d) (c # cs))"
        have "\<forall>x \<in> set (takeWhile (\<lambda>d. \<not> isWhitespace d) (c # cs)). x \<noteq> CR \<and> x \<noteq> LF"
        proof
          fix x assume "x \<in> set (takeWhile (\<lambda>d. \<not> isWhitespace d) (c # cs))"
          then have "\<not> isWhitespace x" by (rule set_takeWhileD [THEN conjunct2])
          then show "x \<noteq> CR \<and> x \<noteq> LF" by auto
        qed
        from newlineAlone_run [OF this, of fm f pc]
        have h: "newlineAlone (makeAtom fm f pc (c # cs) ?n)" .
        have "initialiseAtoms fm f pc (c # cs) =
            makeAtom fm f pc (c # cs) ?n # initialiseAtoms fm f pc (drop ?n (c # cs))"
          using nb ncr nlf by (simp add: Let_def del: takeWhile.simps)
        with 2(7) have "a = makeAtom fm f pc (c # cs) ?n \<or> a \<in> set (initialiseAtoms fm f pc (drop ?n (c # cs)))"
          by (simp del: takeWhile.simps initialiseAtoms.simps)
        then show ?thesis using h 2(6) [OF nb ncr nlf refl] by blast
      qed
    qed
  qed
qed

text \<open>
  C6: in every fragment, a carriage return immediately followed by a line feed becomes
  exactly one atom, a new-line atom of one character; the atoms before it are the atoms
  of the text before the pair and the atoms after it those of the text after the pair.
\<close>

theorem crlf_is_one_newline_atom:
  "initialiseAtoms fm f pc (pre @ CR # LF # post) =
     initialiseAtoms fm f pc pre
     @ \<lparr>atomText = [LF], width = 0, numChars = 1\<rparr> # initialiseAtoms fm f pc post
   \<and> isNewLine \<lparr>atomText = [LF], width = 0, numChars = 1\<rparr>"
  by (simp add: initialiseAtoms_append_CR makeAtom_def isNewLine_def firstCharacter_def)

declare initialiseAtoms.simps(2) [simp del]

lemma initialiseAtoms_made:
  "a \<in> set (initialiseAtoms fm f pc s) \<Longrightarrow> \<exists>t n. a = makeAtom fm f pc t n \<and> n \<le> length t"
proof (induction fm f pc s rule: initialiseAtoms.induct)
  case (1 fm f pc)
  then show ?case by simp
next
  case (2 fm f pc c cs)
  have one: "\<exists>t n. makeAtom fm f pc (x # xs) (Suc 0) = makeAtom fm f pc t n \<and> n \<le> length t" for x xs
    by (rule exI [of _ "x # xs"], rule exI [of _ "Suc 0"]) simp
  show ?case
  proof (cases "isBlank c")
    case True
    let ?n = "Suc (length (takeWhile isBlank cs))"
    have le: "?n \<le> length (c # cs)" by (simp add: length_takeWhile_le)
    have "initialiseAtoms fm f pc (c # cs) =
            makeAtom fm f pc (c # cs) ?n # initialiseAtoms fm f pc (drop ?n (c # cs))"
      using True by (simp add: Let_def initialiseAtoms.simps)
    with 2(7) have "a = makeAtom fm f pc (c # cs) ?n \<or> a \<in> set (initialiseAtoms fm f pc (drop ?n (c # cs)))"
      by simp
    then show ?thesis using le 2(1) [OF True refl] by blast
  next
    case nb: False
    show ?thesis
    proof (cases "c = CR")
      case True
      show ?thesis
      proof (cases cs)
        case Nil
        then have "a = makeAtom fm f pc (c # cs) (Suc 0)" using 2(7) nb True
          by (simp add: initialiseAtoms.simps)
        then show ?thesis using one by blast
      next
        case (Cons d ds)
        show ?thesis
        proof (cases "d = LF")
          case dl: True
          have "a = makeAtom fm f pc (d # ds) (Suc 0) \<or> a \<in> set (initialiseAtoms fm f pc ds)"
            using 2(7) nb True Cons dl by (simp add: initialiseAtoms.simps)
          then show ?thesis using 2(3) [OF nb True Cons dl] one by blast
        next
          case dl: False
          have "a = makeAtom fm f pc (c # cs) (Suc 0) \<or> a \<in> set (initialiseAtoms fm f pc cs)"
            using 2(7) nb True Cons dl by (simp add: initialiseAtoms.simps)
          then show ?thesis using 2(4) [OF nb True Cons dl] one by blast
        qed
      qed
    next
      case ncr: False
      show ?thesis
      proof (cases "c = LF")
        case True
        have "a = makeAtom fm f pc (c # cs) (Suc 0) \<or> a \<in> set (initialiseAtoms fm f pc cs)"
          using 2(7) nb ncr True by (simp add: initialiseAtoms.simps)
        then show ?thesis using 2(5) [OF nb ncr True] one by blast
      next
        case nlf: False
        let ?n = "length (takeWhile (\<lambda>d. \<not> isWhitespace d) (c # cs))"
        have le: "?n \<le> length (c # cs)" by (rule length_takeWhile_le)
        have "initialiseAtoms fm f pc (c # cs) =
            makeAtom fm f pc (c # cs) ?n # initialiseAtoms fm f pc (drop ?n (c # cs))"
          using nb ncr nlf by (simp add: Let_def initialiseAtoms.simps del: takeWhile.simps)
        with 2(7) have "a = makeAtom fm f pc (c # cs) ?n \<or> a \<in> set (initialiseAtoms fm f pc (drop ?n (c # cs)))"
          by (simp del: takeWhile.simps)
        then show ?thesis using le 2(6) [OF nb ncr nlf refl] by blast
      qed
    qed
  qed
qed

lemma initialiseAtoms_count:
  assumes "a \<in> set (initialiseAtoms fm f pc s)" and "length (atomText a) < 65536"
  shows "uint (numChars a) = int (length (atomText a))"
proof -
  from initialiseAtoms_made [OF assms(1)]
  obtain t n where a: "a = makeAtom fm f pc t n" and n: "n \<le> length t" by blast
  have "length (atomText a) = n" using a n by simp
  then have "n < 65536" using assms(2) by simp
  then have "uint (word_of_nat n :: 16 word) = int n" by (simp add: uint_nat unat_of_nat)
  then show ?thesis using a n by simp
qed

lemma sum_counts_texts:
  "(\<And>a. a \<in> set as \<Longrightarrow> uint (numChars a) = int (length (atomText a)))
     \<Longrightarrow> sum_list (map (\<lambda>a. uint (numChars a)) as) = int (length (concat (map atomText as)))"
  by (induction as) simp_all

text \<open>
  C3, as stated, fails on the fragment that is one carriage return and one line feed:
  the only atom is the line feed, of count 1.
\<close>

theorem tokenizer_covers_counterexample:
  "\<not> coversFragment (initialiseAtoms fixedPitch () (CHR 0x00) [CR, LF]) [CR, LF]"
  by (simp add: coversFragment_def initialiseAtoms.simps makeAtom_def Let_def)

text \<open>
  C3, amended: for every fragment with no carriage return immediately followed by a line
  feed, the texts of the atoms concatenate to the fragment and no atom holds a new-line
  character together with another character; the counts of the atoms add up to the
  length of the fragment when no atom has 65536 characters or more.
\<close>

theorem tokenizer_covers:
  assumes "\<not> containsCRLF frag"
  shows "concat (map atomText (initialiseAtoms fm f pc frag)) = frag
         \<and> list_all newlineAlone (initialiseAtoms fm f pc frag)
         \<and> (shortAtoms (initialiseAtoms fm f pc frag) \<longrightarrow>
              sum_list (map (\<lambda>a. uint (numChars a)) (initialiseAtoms fm f pc frag))
                = int (length frag))"
proof -
  let ?as = "initialiseAtoms fm f pc frag"
  have c: "concat (map atomText ?as) = frag"
    using assms by (rule concat_initialiseAtoms)
  have n: "list_all newlineAlone ?as"
    using nomix_initialiseAtoms [of _ fm f pc frag] by (simp add: list_all_iff)
  have s: "sum_list (map (\<lambda>a. uint (numChars a)) ?as) = int (length frag)"
    if "shortAtoms ?as"
  proof -
    have "uint (numChars a) = int (length (atomText a))" if "a \<in> set ?as" for a
      using initialiseAtoms_count [OF that] \<open>shortAtoms ?as\<close> that
      by (simp add: shortAtoms_def list_all_iff)
    from sum_counts_texts [of ?as, OF this] c show ?thesis by simp
  qed
  from c n s show ?thesis by blast
qed

theorem tokenizer_covers_witness:
  "\<not> containsCRLF (''ab  cd'' @ [LF] @ ''e'')
   \<and> shortAtoms (initialiseAtoms fixedPitch () (CHR 0x00) (''ab  cd'' @ [LF] @ ''e''))
   \<and> concat (map atomText (initialiseAtoms fixedPitch () (CHR 0x00) (''ab  cd'' @ [LF] @ ''e'')))
       = ''ab  cd'' @ [LF] @ ''e''
   \<and> list_all newlineAlone (initialiseAtoms fixedPitch () (CHR 0x00) (''ab  cd'' @ [LF] @ ''e''))
   \<and> sum_list (map (\<lambda>a. uint (numChars a))
         (initialiseAtoms fixedPitch () (CHR 0x00) (''ab  cd'' @ [LF] @ ''e'')))
       = int (length (''ab  cd'' @ [LF] @ ''e''))"
proof -
  have h1: "\<not> containsCRLF (''ab  cd'' @ [LF] @ ''e'')"
    by (simp add: CR_def LF_def)
  have h2: "shortAtoms (initialiseAtoms fixedPitch () (CHR 0x00) (''ab  cd'' @ [LF] @ ''e''))"
    by (simp add: shortAtoms_def initialiseAtoms.simps isBlank_def isWhitespace_def
        CR_def LF_def makeAtom_def Let_def)
  from tokenizer_covers [OF h1, of fixedPitch "()" "CHR 0x00"] h1 h2
  show ?thesis by blast
qed

section \<open>Splitting a section\<close>

lemma atomsText_simps [simp]:
  "atomsText [] = []" "atomsText (a # as) = atomText a @ atomsText as"
  "atomsText (as @ bs) = atomsText as @ atomsText bs"
  by (simp_all add: atomsText_def)

lemma atomsLength_simps [simp]:
  "atomsLength [] = 0" "atomsLength (a # as) = uint (numChars a) + atomsLength as"
  "atomsLength (as @ bs) = atomsLength as + atomsLength bs"
  by (simp_all add: atomsLength_def)

lemma atom_ok_bound: "atom_ok a \<Longrightarrow> length (atomText a) < 65536"
  using uint_lt2p [of "numChars a"] by (simp add: atom_ok_def)

lemma atomsLength_text: "list_all atom_ok as \<Longrightarrow> atomsLength as = int (length (atomsText as))"
  by (induction as) (simp_all add: atom_ok_def)

lemma atomsText_empty: "list_all atom_ok as \<Longrightarrow> (atomsText as = []) = (as = [])"
  by (cases as) (simp_all add: atom_ok_def)

lemma splitAtoms_inside:
  assumes "index < k" and "k < index + uint (numChars atm)"
  shows "splitAtoms fm f pc k index (atm # rest) =
     ([\<lparr>atomText = substring (atomText atm) 0 (k - index),
        width = getStringWidthFloat fm f
                  (getText (atm\<lparr>atomText := substring (atomText atm) 0 (k - index)\<rparr>) pc),
        numChars = word_of_int (k - index)\<rparr>],
      \<lparr>atomText = substringFrom (atomText atm) (k - index),
        width = getStringWidthFloat fm f
                  (getText \<lparr>atomText = substringFrom (atomText atm) (k - index), width = 0,
                             numChars = 0\<rparr> pc),
        numChars = word_of_nat (length (substringFrom (atomText atm) (k - index)))\<rparr> # rest)"
  using assms by (simp add: Let_def del: of_int_diff)

lemma splitAtoms_here: "splitAtoms fm f pc k k as = ([], as)"
  by (cases as) simp_all

lemma splitAtoms_later:
  assumes "index \<noteq> k" and "\<not> (index \<le> k \<and> k < index + uint (numChars atm))"
  shows "splitAtoms fm f pc k index (atm # rest) =
     (atm # fst (splitAtoms fm f pc k (index + uint (numChars atm)) rest),
      snd (splitAtoms fm f pc k (index + uint (numChars atm)) rest))"
  using assms by (auto simp: Let_def case_prod_beta)

lemma atomsLength_pos: "list_all atom_ok as \<Longrightarrow> as \<noteq> [] \<Longrightarrow> 0 < atomsLength as"
  by (cases as) (auto simp: atom_ok_def atomsLength_text intro: add_pos_nonneg)

lemma splitAtoms_props:
  assumes "list_all atom_ok as" and "index \<le> k" and "k \<le> index + atomsLength as"
  shows "atomsText (fst (splitAtoms fm f pc k index as)) = take (nat (k - index)) (atomsText as)
       \<and> atomsText (snd (splitAtoms fm f pc k index as)) = drop (nat (k - index)) (atomsText as)
       \<and> list_all atom_ok (fst (splitAtoms fm f pc k index as))
       \<and> list_all atom_ok (snd (splitAtoms fm f pc k index as))"
  using assms
proof (induction as arbitrary: index)
  case Nil
  then show ?case by simp
next
  case (Cons atm rest)
  have ok: "atom_ok atm" and okr: "list_all atom_ok rest" using Cons.prems(1) by simp_all
  have u: "uint (numChars atm) = int (length (atomText atm))" using ok by (simp add: atom_ok_def)
  have bd: "length (atomText atm) < 65536" using ok by (rule atom_ok_bound)
  let ?next = "index + uint (numChars atm)"
  show ?case
  proof (cases "index = k")
    case True
    then show ?thesis using Cons.prems(1) by (simp add: splitAtoms_here)
  next
    case ne: False
    then have lt: "index < k" using Cons.prems(2) by simp
    show ?thesis
    proof (cases "k < ?next")
      case True
      let ?n = "nat (k - index)"
      have n: "?n < length (atomText atm)" "0 < ?n" using True lt u by auto
      have w1: "uint (word_of_int (k - index) :: 16 word) = int ?n"
        unfolding uint_word_of_int using n bd lt by simp
      have w2: "uint (word_of_nat (length (atomText atm) - ?n) :: 16 word)
                  = int (length (atomText atm) - ?n)"
        using bd by (simp add: uint_nat unat_of_nat)
      have s1: "substring (atomText atm) 0 (k - index) = take ?n (atomText atm)"
        using lt by (simp add: substring_def)
      have s2: "substringFrom (atomText atm) (k - index) = drop ?n (atomText atm)"
        by (simp add: substringFrom_def)
      define w1 :: "16 word" where "w1 = word_of_int (k - index)"
      define w2 :: "16 word" where "w2 = word_of_nat (length (drop ?n (atomText atm)))"
      have u1: "uint w1 = int ?n"
        unfolding w1_def uint_word_of_int using n bd lt by simp
      have u2: "uint w2 = int (length (atomText atm) - ?n)"
        unfolding w2_def using bd by (simp add: uint_nat unat_of_nat)
      have o1: "atom_ok \<lparr>atomText = take ?n (atomText atm), width = x, numChars = w1\<rparr>" for x
        using n u1 by (auto simp: atom_ok_def min_def)
      have o2: "atom_ok \<lparr>atomText = drop ?n (atomText atm), width = x, numChars = w2\<rparr>" for x
        using n u2 by (auto simp: atom_ok_def)
      show ?thesis
        unfolding splitAtoms_inside [OF lt True] s1 s2 w1_def [symmetric] w2_def [symmetric]
        using n okr o1 o2 by simp
    next
      case False
      then have ge: "?next \<le> k" by simp
      have le: "k \<le> ?next + atomsLength rest" using Cons.prems(3) by simp
      note IH = Cons.IH [OF okr ge le]
      have nk: "nat (k - index) = length (atomText atm) + nat (k - ?next)"
        using ge u by simp
      have "\<not> (index \<le> k \<and> k < ?next)" using False by simp
      note eq = splitAtoms_later [OF ne this]
      show ?thesis unfolding eq using IH ok nk by simp
    qed
  qed
qed

lemma splitAtoms_end:
  assumes "list_all atom_ok as" and "index < k" and "k = index + atomsLength as"
  shows "splitAtoms fm f pc k index as = (as, [])"
  using assms
proof (induction as arbitrary: index)
  case Nil
  then show ?case by simp
next
  case (Cons atm rest)
  have ok: "atom_ok atm" and okr: "list_all atom_ok rest" using Cons.prems(1) by simp_all
  have u: "0 < uint (numChars atm)" using ok by (simp add: atom_ok_def)
  have nn: "0 \<le> atomsLength rest" using atomsLength_text [OF okr] by simp
  let ?next = "index + uint (numChars atm)"
  have a: "index \<noteq> k" "\<not> (index \<le> k \<and> k < ?next)" using Cons.prems(2,3) nn by auto
  note eq = splitAtoms_later [OF a]
  show ?case
  proof (cases rest)
    case Nil
    then show ?thesis unfolding eq by simp
  next
    case (Cons b bs)
    then have "0 < atomsLength rest" by (intro atomsLength_pos [OF okr]) simp
    then have "?next < k" using Cons.prems(3) by simp
    from Cons.IH [OF okr this] Cons.prems(3) show ?thesis unfolding eq by simp
  qed
qed

lemma splitAtoms_remeasured:
  assumes "a \<in> set (fst (splitAtoms fm f pc k index as)) \<union> set (snd (splitAtoms fm f pc k index as))"
  shows "a \<in> set as \<or> width a = getStringWidthFloat fm f (getText a pc)"
  using assms
proof (induction as arbitrary: index)
  case Nil
  then show ?case by simp
next
  case (Cons atm rest)
  show ?case
  proof (cases "index = k")
    case True
    then show ?thesis using Cons.prems by (simp add: splitAtoms_here)
  next
    case ne: False
    show ?thesis
    proof (cases "index \<le> k \<and> k < index + uint (numChars atm)")
      case True
      then have lt: "index < k" and lt2: "k < index + uint (numChars atm)" using ne by auto
      show ?thesis using Cons.prems unfolding splitAtoms_inside [OF lt lt2]
        by (auto simp: getText_def)
    next
      case False
      show ?thesis using Cons.prems Cons.IH unfolding splitAtoms_later [OF ne False]
        by auto
    qed
  qed
qed

lemma getTotalLength_text: "section_ok s \<Longrightarrow> getTotalLength s = int (length (appendAllText s))"
  using atomsLength_text [of "atoms s"]
  by (simp add: section_ok_def getTotalLength_def appendAllText_def atomsLength_def atomsText_def)

text \<open>
  Where every atom of the section has its invariant, of total length L, and the offset is
  from 0 to L, \<open>split\<close> leaves the first \<open>charOffset\<close> characters in the section and
  returns a section of the same font, colour and password character with the other
  L - charOffset characters; the two texts concatenate to the original text; at offset L
  the returned section has no atoms; each atom of the two sections is an atom of the
  original or has a width measured again.
\<close>

theorem split_section_correct:
  assumes "section_ok s" and "0 \<le> charOffset" and "charOffset \<le> getTotalLength s"
  shows "case split_section fm s charOffset of
           (s1, s2) \<Rightarrow>
             appendAllText s1 = take (nat charOffset) (appendAllText s)
           \<and> appendAllText s2 = drop (nat charOffset) (appendAllText s)
           \<and> getTotalLength s1 = charOffset
           \<and> getTotalLength s2 = getTotalLength s - charOffset
           \<and> font s1 = font s \<and> colour s1 = colour s \<and> passwordChar s1 = passwordChar s
           \<and> font s2 = font s \<and> colour s2 = colour s \<and> passwordChar s2 = passwordChar s
           \<and> (charOffset = getTotalLength s \<longrightarrow> atoms s2 = [])
           \<and> appendAllText s1 @ appendAllText s2 = appendAllText s
           \<and> section_ok s1 \<and> section_ok s2
           \<and> (\<forall>a \<in> set (atoms s1) \<union> set (atoms s2). a \<in> set (atoms s) \<or> remeasured fm s a)"
proof -
  let ?p = "splitAtoms fm (font s) (passwordChar s) charOffset 0 (atoms s)"
  let ?s1 = "s\<lparr>atoms := fst ?p\<rparr>"
  let ?s2 = "\<lparr>font = font s, colour = colour s, atoms = snd ?p, passwordChar = passwordChar s\<rparr>"
  have eq: "split_section fm s charOffset = (?s1, ?s2)"
    by (simp add: split_section_def case_prod_beta)
  have ok: "list_all atom_ok (atoms s)" using assms(1) by (simp add: section_ok_def)
  have le: "charOffset \<le> 0 + atomsLength (atoms s)"
    using assms(3) by (simp add: getTotalLength_def atomsLength_def)
  from splitAtoms_props [OF ok _ le, of fm "font s" "passwordChar s"] assms(2)
  have t1: "atomsText (fst ?p) = take (nat charOffset) (atomsText (atoms s))"
    and t2: "atomsText (snd ?p) = drop (nat charOffset) (atomsText (atoms s))"
    and o1: "list_all atom_ok (fst ?p)" and o2: "list_all atom_ok (snd ?p)"
    by simp_all
  have k1: "section_ok ?s1" and k2: "section_ok ?s2" using o1 o2 by (simp_all add: section_ok_def)
  have a1: "appendAllText ?s1 = take (nat charOffset) (appendAllText s)"
    and a2: "appendAllText ?s2 = drop (nat charOffset) (appendAllText s)"
    using t1 t2 by (simp_all add: appendAllText_def atomsText_def)
  have len: "getTotalLength s = int (length (appendAllText s))"
    using assms(1) by (rule getTotalLength_text)
  have l1: "getTotalLength ?s1 = charOffset"
    using getTotalLength_text [OF k1] a1 assms(2,3) len by simp
  have l2: "getTotalLength ?s2 = getTotalLength s - charOffset"
    using getTotalLength_text [OF k2] a2 assms(2,3) len by simp
  have e: "charOffset = getTotalLength s \<longrightarrow> snd ?p = []"
  proof
    assume c: "charOffset = getTotalLength s"
    show "snd ?p = []"
    proof (cases "0 < charOffset")
      case True
      have "charOffset = 0 + atomsLength (atoms s)"
        using c by (simp add: getTotalLength_def atomsLength_def)
      from splitAtoms_end [OF ok True this, of fm "font s" "passwordChar s"]
      show ?thesis by simp
    next
      case False
      then have z: "charOffset = 0" using assms(2) by simp
      then have "atomsText (atoms s) = []"
        using c len by (simp add: appendAllText_def atomsText_def)
      then have "atoms s = []" using atomsText_empty [OF ok] by simp
      then show ?thesis using z by simp
    qed
  qed
  have r: "\<forall>a \<in> set (fst ?p) \<union> set (snd ?p). a \<in> set (atoms s) \<or> remeasured fm s a"
    using splitAtoms_remeasured [of _ fm "font s" "passwordChar s" charOffset 0 "atoms s"]
    by (auto simp: remeasured_def)
  show ?thesis
    unfolding eq using a1 a2 l1 l2 e k1 k2 r by simp
qed

theorem split_section_correct_witness:
  "section_ok (newUniformTextSection fixedPitch ''ab cd'' () () (CHR 0x00))
   \<and> (0::int) \<le> 4
   \<and> 4 \<le> getTotalLength (newUniformTextSection fixedPitch ''ab cd'' () () (CHR 0x00))
   \<and> appendAllText (fst (split_section fixedPitch
         (newUniformTextSection fixedPitch ''ab cd'' () () (CHR 0x00)) 4)) = ''ab c''
   \<and> appendAllText (snd (split_section fixedPitch
         (newUniformTextSection fixedPitch ''ab cd'' () () (CHR 0x00)) 4)) = ''d''"
proof -
  let ?s = "newUniformTextSection fixedPitch ''ab cd'' () () (CHR 0x00)"
  have at: "atoms ?s = [\<lparr>atomText = ''ab'', width = 2, numChars = 2\<rparr>,
                        \<lparr>atomText = '' '', width = 1, numChars = 1\<rparr>,
                        \<lparr>atomText = ''cd'', width = 2, numChars = 2\<rparr>]"
    by (simp add: newUniformTextSection_def initialiseAtoms.simps isBlank_def isWhitespace_def
        CR_def LF_def makeAtom_def Let_def isNewLine_def firstCharacter_def getText_def
        fixedPitch_def)
  have h1: "section_ok ?s" by (simp add: section_ok_def at atom_ok_def)
  have h2: "(0::int) \<le> 4" by simp
  have h3: "4 \<le> getTotalLength ?s" by (simp add: getTotalLength_def at)
  have tx: "appendAllText ?s = ''ab cd''" by (simp add: appendAllText_def at)
  from split_section_correct [OF h1 h2 h3, of fixedPitch] h1 h2 h3 tx
  show ?thesis by (simp add: case_prod_beta)
qed

section \<open>Coalescing\<close>

lemma sectionsText_simps [simp]:
  "sectionsText [] = []" "sectionsText (s # ss) = appendAllText s @ sectionsText ss"
  "sectionsText (xs @ ys) = sectionsText xs @ sectionsText ys"
  by (simp_all add: sectionsText_def)

lemma sectionsLength_simps [simp]:
  "sectionsLength [] = 0" "sectionsLength (s # ss) = getTotalLength s + sectionsLength ss"
  "sectionsLength (xs @ ys) = sectionsLength xs + sectionsLength ys"
  by (simp_all add: sectionsLength_def)

lemma append_section_style [simp]:
  "font (append_section fm s other) = font s"
  "colour (append_section fm s other) = colour s"
  "passwordChar (append_section fm s other) = passwordChar s"
  by (simp_all add: append_section_def Let_def)

lemma append_section_text [simp]:
  "appendAllText (append_section fm s other) = appendAllText s @ appendAllText other"
proof (cases "atoms other")
  case Nil
  then show ?thesis by (simp add: append_section_def appendAllText_def)
next
  case (Cons b bs)
  show ?thesis
  proof (cases "atoms s = []")
    case True
    then show ?thesis using Cons by (simp add: append_section_def appendAllText_def)
  next
    case False
    then have "atoms s = butlast (atoms s) @ [last (atoms s)]" by simp
    then have "atomsText (atoms s) = atomsText (butlast (atoms s)) @ atomText (last (atoms s))"
      by (metis atomsText_simps(1,2,3) append_Nil2)
    then show ?thesis using Cons False
      by (simp add: append_section_def appendAllText_def Let_def atomsText_def)
  qed
qed

lemma coalesce_hd_style:
  "coalesceSimilarSections fm (s # rest) \<noteq> []
   \<and> font (hd (coalesceSimilarSections fm (s # rest))) = font s
   \<and> colour (hd (coalesceSimilarSections fm (s # rest))) = colour s"
proof (induction rest arbitrary: s)
  case Nil
  show ?case by simp
next
  case (Cons s2 rest)
  show ?case using Cons [of "append_section fm s s2"] by simp
qed

lemma coalesce_text [simp]: "sectionsText (coalesceSimilarSections fm secs) = sectionsText secs"
  by (induction fm secs rule: coalesceSimilarSections.induct) simp_all

lemma coalesce_noSimilarNeighbours: "noSimilarNeighbours (coalesceSimilarSections fm secs)"
proof (induction fm secs rule: coalesceSimilarSections.induct)
  case (1 fm s1 s2 rest)
  show ?case
  proof (cases "font s1 = font s2 \<and> colour s1 = colour s2")
    case True
    then show ?thesis using 1(1) by simp
  next
    case False
    obtain t ts where c: "coalesceSimilarSections fm (s2 # rest) = t # ts"
      using coalesce_hd_style [of fm s2 rest] by (cases "coalesceSimilarSections fm (s2 # rest)") auto
    have "font t = font s2" "colour t = colour s2"
      using coalesce_hd_style [of fm s2 rest] c by simp_all
    then show ?thesis using False 1(2) c by auto
  qed
qed simp_all

lemma append_section_ok:
  assumes "section_ok s" and "section_ok other"
    and "getTotalLength s + getTotalLength other < 65536"
  shows "section_ok (append_section fm s other)
       \<and> getTotalLength (append_section fm s other) = getTotalLength s + getTotalLength other"
proof -
  have t: "section_ok (append_section fm s other)"
  proof (cases "atoms other")
    case Nil
    then show ?thesis using assms(1) by (simp add: append_section_def)
  next
    case (Cons b bs)
    show ?thesis
    proof (cases "atoms s = []")
      case True
      then show ?thesis using Cons assms(2) by (simp add: append_section_def section_ok_def)
    next
      case False
      then have sp: "atoms s = butlast (atoms s) @ [last (atoms s)]" by simp
      let ?l = "last (atoms s)"
      have okl: "atom_ok ?l"
        using assms(1) False by (simp add: section_ok_def list_all_iff)
      have okb: "list_all atom_ok (butlast (atoms s))"
        using assms(1) by (auto simp: section_ok_def list_all_iff dest: in_set_butlastD)
      have okh: "atom_ok b" and okt: "list_all atom_ok bs"
        using assms(2) Cons by (simp_all add: section_ok_def)
      have "0 \<le> atomsLength (butlast (atoms s))" "0 \<le> atomsLength bs"
        using atomsLength_text [OF okb] atomsLength_text [OF okt] by simp_all
      moreover have "getTotalLength s = atomsLength (butlast (atoms s)) + uint (numChars ?l)"
        using sp by (metis atomsLength_def atomsLength_simps(1,2,3) getTotalLength_def add.right_neutral)
      moreover have "getTotalLength other = uint (numChars b) + atomsLength bs"
        using Cons by (simp add: getTotalLength_def atomsLength_def)
      ultimately have "uint (numChars ?l) + uint (numChars b) < 65536"
        using assms(3) by simp
      then have "uint (numChars ?l + numChars b) = uint (numChars ?l) + uint (numChars b)"
        by (simp add: uint_add_lem [symmetric])
      then have "atom_ok (?l\<lparr>atomText := atomText ?l @ atomText b,
                             numChars := numChars ?l + numChars b, width := x\<rparr>)" for x
        using okl okh by (simp add: atom_ok_def)
      then show ?thesis using Cons False okb okt assms
        by (simp add: append_section_def section_ok_def Let_def)
    qed
  qed
  have "getTotalLength (append_section fm s other) = int (length (appendAllText s @ appendAllText other))"
    using getTotalLength_text [OF t] by simp
  then show ?thesis using t getTotalLength_text [OF assms(1)] getTotalLength_text [OF assms(2)]
    by simp
qed

lemma coalesce_ok:
  assumes "list_all section_ok secs" and "sectionsLength secs < 65536"
  shows "list_all section_ok (coalesceSimilarSections fm secs)
       \<and> sectionsLength (coalesceSimilarSections fm secs) = sectionsLength secs"
  using assms
proof (induction fm secs rule: coalesceSimilarSections.induct)
  case (1 fm s1 s2 rest)
  have nn: "0 \<le> sectionsLength rest"
    unfolding sectionsLength_def by (rule sum_list_nonneg) (auto simp: getTotalLength_nonneg)
  show ?case
  proof (cases "font s1 = font s2 \<and> colour s1 = colour s2")
    case True
    have b: "getTotalLength s1 + getTotalLength s2 < 65536" using 1(4) nn by simp
    from append_section_ok [OF _ _ b, of fm] 1(3)
    have a: "section_ok (append_section fm s1 s2)"
      "getTotalLength (append_section fm s1 s2) = getTotalLength s1 + getTotalLength s2"
      by simp_all
    then show ?thesis using True 1(1) 1(3,4) by simp
  next
    case False
    have "sectionsLength (s2 # rest) < 65536"
      using 1(4) getTotalLength_nonneg [of s1] by simp
    then show ?thesis using False 1(2) 1(3) by auto
  qed
qed simp_all

lemma initialiseAtoms_word:
  assumes "\<not> isWhitespace c"
  shows "initialiseAtoms fm f pc (replicate (Suc n) c) = [makeAtom fm f pc (replicate (Suc n) c) (Suc n)]"
proof -
  have nb: "\<not> isBlank c" "c \<noteq> CR" "c \<noteq> LF"
    using assms by (auto simp: isBlank_def)
  have tw: "takeWhile (\<lambda>d. \<not> isWhitespace d) (c # replicate n c) = c # replicate n c"
    using assms by (simp add: takeWhile_eq_all_conv)
  show ?thesis
    unfolding replicate_Suc initialiseAtoms.simps(2) [of fm f pc c "replicate n c"] Let_def tw
    using nb by simp
qed

lemma firstCharacter_replicate: "0 < n \<Longrightarrow> firstCharacter (replicate n c) = c"
  by (cases n) (simp_all add: firstCharacter_def)

lemma getLastCharacter_replicate: "0 < n \<Longrightarrow> getLastCharacter (replicate n c) = c"
  by (simp add: getLastCharacter_def)

lemma atoms_wordSection:
  "atoms (wordSection (Suc n)) =
     [\<lparr>atomText = replicate (Suc n) (CHR ''a''), width = of_nat (Suc n), numChars = of_nat (Suc n)\<rparr>]"
proof -
  have "\<not> isWhitespace (CHR ''a'')" by (simp add: isWhitespace_def)
  from initialiseAtoms_word [OF this, of fixedPitch "()" "CHR 0x00" n]
  show ?thesis
    by (simp add: wordSection_def newUniformTextSection_def makeAtom_def Let_def isNewLine_def
        firstCharacter_def CR_def LF_def getText_def fixedPitch_def)
qed

lemma style_wordSection [simp]:
  "font (wordSection n) = ()" "colour (wordSection n) = ()" "passwordChar (wordSection n) = CHR 0x00"
  by (simp_all add: wordSection_def newUniformTextSection_def)

text \<open>
  C2: the text is unchanged and no neighbours of the same style are left
  (\<open>coalesce_text\<close>, \<open>coalesce_noSimilarNeighbours\<close>), and the total length is unchanged
  while it is below 65536 (\<open>coalesce_ok\<close>). The total length changes on two sections of
  the same style that hold one word of 32768 characters each: the merged atom's count is
  cast to 16 bits, and the total length goes from 65536 to 0 while the text keeps its
  65536 characters.
\<close>

theorem coalesce_wraps_total_length:
  "section_ok (wordSection 32768)
   \<and> sectionsLength [wordSection 32768, wordSection 32768] = 65536
   \<and> sectionsLength (coalesceSimilarSections fixedPitch [wordSection 32768, wordSection 32768]) = 0
   \<and> length (sectionsText
        (coalesceSimilarSections fixedPitch [wordSection 32768, wordSection 32768])) = 65536"
proof -
  define w where "w = wordSection 32768"
  have at: "atoms w =
     [\<lparr>atomText = replicate 32768 (CHR ''a''), width = 32768, numChars = 32768\<rparr>]"
    unfolding w_def using atoms_wordSection [of 32767] by simp
  have st: "font w = ()" "colour w = ()" "passwordChar w = CHR 0x00"
    unfolding w_def by simp_all
  have ok: "section_ok w"
    by (simp add: section_ok_def at atom_ok_def)
  have l: "getTotalLength w = 32768"
    by (simp add: getTotalLength_def at)
  have tx: "length (appendAllText w) = 32768"
    by (simp add: appendAllText_def at)
  have nw: "\<not> isWhitespace (CHR ''a'')" by (simp add: isWhitespace_def)
  have ap: "atoms (append_section fixedPitch w w) =
     [\<lparr>atomText = replicate 32768 (CHR ''a'') @ replicate 32768 (CHR ''a''),
       width = 65536, numChars = 0\<rparr>]"
    using nw by (simp add: append_section_def at st Let_def getLastCharacter_replicate
        firstCharacter_replicate getText_def fixedPitch_def)
  have "sectionsLength (coalesceSimilarSections fixedPitch [w, w]) = 0"
    by (simp add: getTotalLength_def ap)
  then show ?thesis using ok l tx unfolding w_def [symmetric] by simp
qed

text \<open>
  C8: \<open>split\<close> is wrong on a section that holds a word of 65536 characters or more, whose
  count the constructor has cast to 16 bits. The section made of 65537 letters has the
  total length 1, and \<open>split (1)\<close> moves nothing: all 65537 characters stay and the
  returned section is empty. The section made of 65538 letters has the total length 2,
  and \<open>split (1)\<close> returns a section of 65537 characters whose total length is 1.
\<close>

theorem split_long_word_keeps_everything:
  "length (appendAllText (wordSection 65537)) = 65537
   \<and> getTotalLength (wordSection 65537) = 1
   \<and> split_section fixedPitch (wordSection 65537) 1
       = (wordSection 65537, \<lparr>font = (), colour = (), atoms = [], passwordChar = CHR 0x00\<rparr>)
   \<and> length (appendAllText (wordSection 65538)) = 65538
   \<and> getTotalLength (wordSection 65538) = 2
   \<and> length (appendAllText (snd (split_section fixedPitch (wordSection 65538) 1))) = 65537
   \<and> getTotalLength (snd (split_section fixedPitch (wordSection 65538) 1)) = 1"
proof -
  have w1: "(word_of_nat 65537 :: 16 word) = 1" by simp
  have w2: "(word_of_nat 65538 :: 16 word) = 2" by simp
  have at: "atoms (wordSection 65537) =
     [\<lparr>atomText = replicate 65537 (CHR ''a''), width = 65537, numChars = 1\<rparr>]"
    using atoms_wordSection [of 65536] w1 by simp
  have at2: "atoms (wordSection 65538) =
     [\<lparr>atomText = replicate 65538 (CHR ''a''), width = 65538, numChars = 2\<rparr>]"
    using atoms_wordSection [of 65537] w2 by simp
  have eq: "wordSection 65537 = \<lparr>font = (), colour = (), atoms = atoms (wordSection 65537),
                                  passwordChar = CHR 0x00\<rparr>"
    by (simp add: wordSection_def newUniformTextSection_def)
  have a: "length (appendAllText (wordSection 65537)) = 65537"
    by (simp add: appendAllText_def at)
  have b: "getTotalLength (wordSection 65537) = 1"
    by (simp add: getTotalLength_def at)
  have c: "split_section fixedPitch (wordSection 65537) 1
       = (wordSection 65537, \<lparr>font = (), colour = (), atoms = [], passwordChar = CHR 0x00\<rparr>)"
    by (subst (2) eq) (simp add: split_section_def at Let_def)
  have a2: "length (appendAllText (wordSection 65538)) = 65538"
    by (simp add: appendAllText_def at2)
  have b2: "getTotalLength (wordSection 65538) = 2"
    by (simp add: getTotalLength_def at2)
  have w3: "(word_of_nat (65538 - Suc 0) :: 16 word) = 1" by simp
  have s2: "atoms (snd (split_section fixedPitch (wordSection 65538) 1))
       = [\<lparr>atomText = replicate 65537 (CHR ''a''), width = 65537, numChars = 1\<rparr>]"
    using w3 by (simp add: split_section_def at2 Let_def substringFrom_def getText_def fixedPitch_def)
  have c2: "length (appendAllText (snd (split_section fixedPitch (wordSection 65538) 1))) = 65537"
    by (simp add: appendAllText_def s2)
  have d2: "getTotalLength (snd (split_section fixedPitch (wordSection 65538) 1)) = 1"
    by (simp add: getTotalLength_def s2)
  from a b c a2 b2 c2 d2 show ?thesis by blast
qed

section \<open>Editing and undoing\<close>

lemma helloAtoms:
  "initialiseAtoms fm f pc ''hello'' =
     [\<lparr>atomText = ''hello'', width = getStringWidthFloat fm f (getText \<lparr>atomText = ''hello'', width = 0, numChars = 0\<rparr> pc), numChars = 5\<rparr>]"
  by (simp add: initialiseAtoms.simps isBlank_def isWhitespace_def CR_def LF_def makeAtom_def
      Let_def isNewLine_def firstCharacter_def)

text \<open>
  C10: for every editor and every range made with its start at or after its end,
  \<open>getTextInRange\<close> returns the empty string and the editor as it was.
\<close>

theorem getTextInRange_empty:
  "e \<le> s \<Longrightarrow> getTextInRange (Range_int s e) ed = ([], ed)"
  by (simp add: getTextInRange_def Range_int_def isEmptyRange_def max_def)

text \<open>
  C9: in a read-only editor \<open>undo\<close> and \<open>redo\<close> return false and leave the editor, its
  undo history included, as it was.
\<close>

theorem readOnly_undo_redo:
  "isReadOnly ed \<Longrightarrow> undo fm ed = (False, ed) \<and> redo fm ed = (False, ed)"
  by (simp add: undo_def redo_def undoOrRedo_def)

lemma helloEditor_eq:
  "helloEditor =
     \<lparr>sections = [\<lparr>font = (), colour = (),
                    atoms = [\<lparr>atomText = ''hello'', width = 5, numChars = 5\<rparr>],
                    passwordChar = CHR 0x00\<rparr>],
      totalNumChars = 5, caretPosition = 5, selection = (5, 5),
      readOnly = False, enabled = True, passwordCharacter = CHR 0x00,
      valueTextNeedsUpdating = True,
      undoManager = \<lparr>transactions = [[InsertAction ''hello'' 0 0 5 () ()]],
                      nextIndex_um = 1, newTransaction_um = False\<rparr>\<rparr>"
  by code_simp

theorem getTextInRange_empty_witness:
  "(2::int) \<le> 4 \<and> getText_editor helloEditor = ''hello''
   \<and> getTextInRange (Range_int 4 2) helloEditor = ([], helloEditor)"
  using getTextInRange_empty [of 2 4 helloEditor]
  by (simp add: helloEditor_eq getText_editor_def appendAllText_def)

theorem readOnly_undo_redo_witness:
  "isReadOnly (helloEditor\<lparr>readOnly := True\<rparr>)
   \<and> getCurrentSet (undoManager (helloEditor\<lparr>readOnly := True\<rparr>))
       = Some [InsertAction ''hello'' 0 0 5 () ()]
   \<and> undo fixedPitch (helloEditor\<lparr>readOnly := True\<rparr>) = (False, helloEditor\<lparr>readOnly := True\<rparr>)
   \<and> redo fixedPitch (helloEditor\<lparr>readOnly := True\<rparr>) = (False, helloEditor\<lparr>readOnly := True\<rparr>)"
proof -
  have h: "isReadOnly (helloEditor\<lparr>readOnly := True\<rparr>)" by (simp add: isReadOnly_def)
  have c: "getCurrentSet (undoManager (helloEditor\<lparr>readOnly := True\<rparr>))
       = Some [InsertAction ''hello'' 0 0 5 () ()]"
    by (simp add: helloEditor_eq getCurrentSet_def)
  from readOnly_undo_redo [OF h, of fixedPitch] h c show ?thesis by simp
qed

lemma getTotalNumChars_simps [simp]:
  "sections (snd (getTotalNumChars ed)) = sections ed"
  "undoManager (snd (getTotalNumChars ed)) = undoManager ed"
  "readOnly (snd (getTotalNumChars ed)) = readOnly ed"
  "enabled (snd (getTotalNumChars ed)) = enabled ed"
  "passwordCharacter (snd (getTotalNumChars ed)) = passwordCharacter ed"
  "caretPosition (snd (getTotalNumChars ed)) = caretPosition ed"
  by (simp_all add: getTotalNumChars_def Let_def)

lemma getTotalNumChars_stale:
  "totalNumChars ed < 0 \<Longrightarrow> fst (getTotalNumChars ed) = sectionsLength (sections ed)"
  "totalNumChars ed < 0 \<Longrightarrow>
     totalNumChars (snd (getTotalNumChars ed)) = sectionsLength (sections ed)"
  by (simp_all add: getTotalNumChars_def Let_def sectionsLength_def)

lemma getTotalNumChars_fresh:
  "totalNumChars ed = sectionsLength (sections ed) \<Longrightarrow>
     fst (getTotalNumChars ed) = sectionsLength (sections ed)
     \<and> totalNumChars (snd (getTotalNumChars ed)) = sectionsLength (sections ed)"
  by (simp add: getTotalNumChars_def Let_def sectionsLength_def)

lemma moveCaret_simps [simp]:
  "sections (moveCaret p ed) = sections ed"
  "undoManager (moveCaret p ed) = undoManager ed"
  "readOnly (moveCaret p ed) = readOnly ed"
  "enabled (moveCaret p ed) = enabled ed"
  "passwordCharacter (moveCaret p ed) = passwordCharacter ed"
  by (simp_all add: moveCaret_def Let_def case_prod_beta)

lemma moveCaret_total:
  "totalNumChars ed < 0 \<Longrightarrow>
     totalNumChars (moveCaret p ed) < 0 \<or> totalNumChars (moveCaret p ed) = sectionsLength (sections ed)"
  by (simp add: moveCaret_def Let_def case_prod_beta getTotalNumChars_def sectionsLength_def)

lemma moveCaretTo_simps [simp]:
  "sections (moveCaretTo p ed) = sections ed"
  "undoManager (moveCaretTo p ed) = undoManager ed"
  "readOnly (moveCaretTo p ed) = readOnly ed"
  "enabled (moveCaretTo p ed) = enabled ed"
  "passwordCharacter (moveCaretTo p ed) = passwordCharacter ed"
  "totalNumChars (moveCaretTo p ed) = totalNumChars (moveCaret p ed)"
  by (simp_all add: moveCaretTo_def Let_def)

lemma total_after_edit:
  assumes "totalNumChars ed < 0"
  shows "totalNumChars (snd (getTotalNumChars (moveCaretTo p ed))) = sectionsLength (sections ed)"
proof -
  from moveCaret_total [OF assms, of p]
  show ?thesis
  proof
    assume "totalNumChars (moveCaret p ed) < 0"
    then show ?thesis using getTotalNumChars_stale(2) [of "moveCaretTo p ed"] by simp
  next
    assume "totalNumChars (moveCaret p ed) = sectionsLength (sections ed)"
    then show ?thesis using getTotalNumChars_fresh [of "moveCaretTo p ed"] by simp
  qed
qed

lemma insertDirect_simps [simp]:
  "sections (insertDirect fm txt i f col p ed) =
     coalesceSimilarSections fm
       (insertSections fm [newUniformTextSection fm txt f col (passwordCharacter ed)] i (sections ed))"
  "undoManager (insertDirect fm txt i f col p ed) = undoManager ed"
  "readOnly (insertDirect fm txt i f col p ed) = readOnly ed"
  "enabled (insertDirect fm txt i f col p ed) = enabled ed"
  "passwordCharacter (insertDirect fm txt i f col p ed) = passwordCharacter ed"
  by (simp_all add: insertDirect_def Let_def)

lemma insertDirect_total:
  "totalNumChars (insertDirect fm txt i f col p ed) =
     sectionsLength (sections (insertDirect fm txt i f col p ed))"
  unfolding insertDirect_simps unfolding insertDirect_def Let_def
  by (subst total_after_edit) simp_all

lemma removeDirect_simps [simp]:
  "sections (removeDirect fm r p ed) =
     (if isEmptyRange r then sections ed
      else coalesceSimilarSections fm (removeLoop r 0 (splitAtRangeEnds fm r 0 (sections ed))))"
  "undoManager (removeDirect fm r p ed) = undoManager ed"
  "readOnly (removeDirect fm r p ed) = readOnly ed"
  "enabled (removeDirect fm r p ed) = enabled ed"
  "passwordCharacter (removeDirect fm r p ed) = passwordCharacter ed"
  by (simp_all add: removeDirect_def Let_def)

lemma removeDirect_total:
  "\<not> isEmptyRange r \<Longrightarrow>
   totalNumChars (removeDirect fm r p ed) = sectionsLength (sections (removeDirect fm r p ed))"
  unfolding removeDirect_simps unfolding removeDirect_def Let_def
  by (simp add: total_after_edit)

lemma reinsert_simps [simp]:
  "sections (reinsert fm i new ed) =
     coalesceSimilarSections fm (insertSections fm new i (sections ed))"
  "undoManager (reinsert fm i new ed) = undoManager ed"
  "readOnly (reinsert fm i new ed) = readOnly ed"
  "enabled (reinsert fm i new ed) = enabled ed"
  "passwordCharacter (reinsert fm i new ed) = passwordCharacter ed"
  by (simp_all add: reinsert_def)

lemma getText_editor_sections: "getText_editor ed = sectionsText (sections ed)"
  by (simp add: getText_editor_def sectionsText_def)

text \<open>
  C7: in an editor with no text and no undo history that is not read-only, after hello is
  inserted at index 0 through the undo manager the text is hello; \<open>undo\<close> then returns
  true and leaves the empty text and the total length 0.
\<close>

theorem insert_hello_then_undo:
  fixes fm :: "'f FontMetrics" and f :: 'f and col :: 'c
  defines "ed0 t caret sel pc v nt \<equiv>
     \<lparr>sections = [], totalNumChars = t, caretPosition = caret, selection = sel,
      readOnly = False, enabled = True, passwordCharacter = pc,
      valueTextNeedsUpdating = v,
      undoManager = \<lparr>transactions = ([] :: ('f, 'c) UndoableAction list list),
                      nextIndex_um = 0, newTransaction_um = nt\<rparr>\<rparr>"
  shows "getText_editor (insert_editor fm ''hello'' 0 f col True newCaret (ed0 t caret sel pc v nt))
           = ''hello''
       \<and> fst (undo fm (insert_editor fm ''hello'' 0 f col True newCaret (ed0 t caret sel pc v nt)))
       \<and> getText_editor
            (snd (undo fm (insert_editor fm ''hello'' 0 f col True newCaret (ed0 t caret sel pc v nt))))
           = []
       \<and> fst (getTotalNumChars
            (snd (undo fm (insert_editor fm ''hello'' 0 f col True newCaret (ed0 t caret sel pc v nt)))))
           = 0"
proof -
  let ?e0 = "ed0 t caret sel pc v nt"
  let ?A = "InsertAction ''hello'' 0 caret newCaret f col"
  let ?N = "newUniformTextSection fm ''hello'' f col pc"
  let ?e1 = "insert_editor fm ''hello'' 0 f col True newCaret ?e0"
  have L: "getTotalLength ?N = 5"
    by (simp add: newUniformTextSection_def helloAtoms getTotalLength_def)
  have T: "appendAllText ?N = ''hello''"
    by (simp add: newUniformTextSection_def helloAtoms appendAllText_def)
  have n0: "getNumActionsInCurrentTransaction (undoManager ?e0) = 0"
    by (simp add: ed0_def getNumActionsInCurrentTransaction_def getCurrentSet_def)
  have e1: "?e1 = perform fm ?A ?e0"
    using n0 by (simp add: insert_editor_def maxActionsPerTransaction_def) (simp add: ed0_def)
  let ?d = "insertDirect fm ''hello'' 0 f col newCaret ?e0"
  have sd: "sections ?d = [?N]"
    by (simp add: insertSections_def) (simp add: ed0_def insertSections_def)
  have ud: "undoManager ?d = \<lparr>transactions = [], nextIndex_um = 0, newTransaction_um = nt\<rparr>"
    by (simp add: ed0_def)
  have s1: "sections ?e1 = [?N]"
    unfolding e1 using sd by (simp add: perform_def Let_def case_prod_beta)
  have u1: "undoManager ?e1 = \<lparr>transactions = [[?A]], nextIndex_um = 1, newTransaction_um = False\<rparr>"
    unfolding e1 using ud
    by (simp add: perform_def Let_def getCurrentSet_def totalUnitsStored_def maxNumUnitsToKeep_def)
  have r1: "\<not> isReadOnly ?e1"
    unfolding e1 by (simp add: perform_def Let_def case_prod_beta isReadOnly_def) (simp add: ed0_def)
  have t1: "getText_editor ?e1 = ''hello''"
    using s1 T by (simp add: getText_editor_def)
  let ?r = "removeDirect fm (Range_int 0 5) caret (newTransaction ?e1)"
  have un: "undo fm ?e1 =
      (True, ?r\<lparr>undoManager := beginNewTransaction
                   ((undoManager ?r)\<lparr>nextIndex_um := nextIndex_um (undoManager ?r) - 1\<rparr>)\<rparr>)"
    using r1 u1
    by (simp add: undo_def undoOrRedo_def undo_um_def newTransaction_def getCurrentSet_def
        beginNewTransaction_def Let_def)
  have ne: "\<not> isEmptyRange (Range_int 0 5)" by (simp add: Range_int_def isEmptyRange_def)
  have sp: "splitAtRangeEnds fm (Range_int 0 5) 0 [?N] = [?N]"
    using L by (simp add: splitAtRangeEnds.simps Range_int_def getStart_def getEnd_def)
  have rl: "removeLoop (Range_int 0 5) 0 [?N] = []"
    using L by (simp add: Range_int_def getStart_def getEnd_def setEnd_def isEmptyRange_def)
  have sr: "sections ?r = []"
    using ne s1 sp rl by (simp add: newTransaction_def)
  have tr: "totalNumChars ?r = 0"
    using removeDirect_total [OF ne, of fm caret "newTransaction ?e1"] sr by simp
  show ?thesis
    using t1 sr tr unfolding un by (simp add: getText_editor_def getTotalNumChars_def)
qed

section \<open>Inserting and removing sections\<close>

lemma doc_ok_simps [simp]:
  "doc_ok []" "doc_ok (s # ss) = (section_ok s \<and> atoms s \<noteq> [] \<and> doc_ok ss)"
  "doc_ok (xs @ ys) = (doc_ok xs \<and> doc_ok ys)"
  by (auto simp: doc_ok_def)

lemma section_pos: "section_ok s \<Longrightarrow> atoms s \<noteq> [] \<Longrightarrow> 0 < getTotalLength s"
  using atomsLength_pos [of "atoms s"]
  by (simp add: section_ok_def getTotalLength_def atomsLength_def)

lemma sectionsLength_text: "doc_ok secs \<Longrightarrow> sectionsLength secs = int (length (sectionsText secs))"
  by (induction secs) (simp_all add: getTotalLength_text)

lemma sectionsLength_nonneg: "0 \<le> sectionsLength secs"
  unfolding sectionsLength_def by (rule sum_list_nonneg) (auto simp: getTotalLength_nonneg)

lemma split_section_inside:
  assumes "section_ok s" and "0 < k" and "k < getTotalLength s"
  shows "appendAllText (fst (split_section fm s k)) = take (nat k) (appendAllText s)"
    and "appendAllText (snd (split_section fm s k)) = drop (nat k) (appendAllText s)"
    and "section_ok (fst (split_section fm s k))" and "section_ok (snd (split_section fm s k))"
    and "atoms (fst (split_section fm s k)) \<noteq> []" and "atoms (snd (split_section fm s k)) \<noteq> []"
proof -
  let ?p = "splitAtoms fm (font s) (passwordChar s) k 0 (atoms s)"
  have ok: "list_all atom_ok (atoms s)" using assms(1) by (simp add: section_ok_def)
  have le: "k \<le> 0 + atomsLength (atoms s)"
    using assms(3) by (simp add: getTotalLength_def atomsLength_def)
  have len: "getTotalLength s = int (length (appendAllText s))"
    using assms(1) by (rule getTotalLength_text)
  from splitAtoms_props [OF ok _ le, of fm "font s" "passwordChar s"] assms(2)
  have t1: "atomsText (fst ?p) = take (nat k) (atomsText (atoms s))"
    and t2: "atomsText (snd ?p) = drop (nat k) (atomsText (atoms s))"
    and o1: "list_all atom_ok (fst ?p)" and o2: "list_all atom_ok (snd ?p)"
    by simp_all
  show a1: "appendAllText (fst (split_section fm s k)) = take (nat k) (appendAllText s)"
    using t1 by (simp add: split_section_def case_prod_beta appendAllText_def atomsText_def)
  show a2: "appendAllText (snd (split_section fm s k)) = drop (nat k) (appendAllText s)"
    using t2 by (simp add: split_section_def case_prod_beta appendAllText_def atomsText_def)
  show "section_ok (fst (split_section fm s k))" "section_ok (snd (split_section fm s k))"
    using o1 o2 by (simp_all add: split_section_def case_prod_beta section_ok_def)
  have "appendAllText (fst (split_section fm s k)) \<noteq> []"
    unfolding a1 using assms(2,3) len by auto
  then show "atoms (fst (split_section fm s k)) \<noteq> []"
    by (auto simp: appendAllText_def)
  have "appendAllText (snd (split_section fm s k)) \<noteq> []"
    unfolding a2 using assms(2,3) len by auto
  then show "atoms (snd (split_section fm s k)) \<noteq> []"
    by (auto simp: appendAllText_def)
qed

text \<open>The loop of insert: far from every section, nothing is inserted.\<close>

lemma insertLoop_outside:
  "k < index \<or> index + sectionsLength secs < k \<Longrightarrow>
   insertLoop fm new k index n secs = (secs, if secs = [] then n else index + sectionsLength secs)"
proof (induction secs arbitrary: index n)
  case Nil
  show ?case by simp
next
  case (Cons x xs)
  have nn: "0 \<le> getTotalLength x" "0 \<le> sectionsLength xs"
    by (simp_all add: getTotalLength_nonneg sectionsLength_nonneg)
  let ?next = "index + getTotalLength x"
  have a: "k \<noteq> index" "\<not> (k > index \<and> k < ?next)" using Cons.prems nn by auto
  have "k < ?next \<or> ?next + sectionsLength xs < k" using Cons.prems nn by auto
  from Cons.IH [OF this, of ?next] a show ?case
    by (auto simp: Let_def)
qed

lemma insertSections_outside:
  assumes "k < 0 \<or> sectionsLength secs < k"
  shows "insertSections fm new k secs = secs"
proof -
  have "k < 0 \<or> 0 + sectionsLength secs < k" using assms by simp
  from insertLoop_outside [OF this, of fm new 0] assms sectionsLength_nonneg [of secs]
  show ?thesis by (auto simp: insertSections_def)
qed

lemma insertLoop_inside:
  assumes "doc_ok secs" and "index \<le> k" and "k < index + sectionsLength secs"
  shows "sectionsText (fst (insertLoop fm new k index n secs))
           = take (nat (k - index)) (sectionsText secs) @ sectionsText new
             @ drop (nat (k - index)) (sectionsText secs)
       \<and> snd (insertLoop fm new k index n secs) \<noteq> k
       \<and> (doc_ok new \<longrightarrow> doc_ok (fst (insertLoop fm new k index n secs)))"
  using assms
proof (induction secs arbitrary: index n)
  case Nil
  then show ?case by simp
next
  case (Cons x xs)
  have okx: "section_ok x" "atoms x \<noteq> []" and okxs: "doc_ok xs" using Cons.prems(1) by simp_all
  have lx: "getTotalLength x = int (length (appendAllText x))" using okx(1) by (rule getTotalLength_text)
  have px: "0 < getTotalLength x" using okx by (rule section_pos)
  let ?next = "index + getTotalLength x"
  show ?case
  proof (cases "k = index")
    case True
    then show ?thesis using px Cons.prems(1) by (simp add: Let_def)
  next
    case ne: False
    then have lt: "index < k" using Cons.prems(2) by simp
    show ?thesis
    proof (cases "k < ?next")
      case True
      have k: "0 < k - index" "k - index < getTotalLength x" using lt True by simp_all
      note sp = split_section_inside [OF okx(1) k, of fm]
      have e: "insertLoop fm new k index n (x # xs) =
                 (fst (split_section fm x (k - index)) # new @ snd (split_section fm x (k - index)) # xs, ?next)"
        using ne lt True by (simp add: Let_def case_prod_beta)
      have n1: "nat (k - index) < length (appendAllText x)" using k lx by simp
      show ?thesis unfolding e using sp okxs n1 True by simp
    next
      case False
      then have ge: "?next \<le> k" by simp
      have lt2: "k < ?next + sectionsLength xs" using Cons.prems(3) by simp
      note IH = Cons.IH [OF okxs ge lt2, of ?next]
      have e: "insertLoop fm new k index n (x # xs) =
                 (x # fst (insertLoop fm new k ?next ?next xs), snd (insertLoop fm new k ?next ?next xs))"
        using ne False by (simp add: Let_def case_prod_beta)
      have nk: "nat (k - index) = length (appendAllText x) + nat (k - ?next)"
        using ge lx by simp
      show ?thesis unfolding e using IH okx nk by simp
    qed
  qed
qed

lemma insertSections_inside:
  assumes "doc_ok secs" and "0 \<le> k" and "k \<le> sectionsLength secs"
  shows "sectionsText (insertSections fm new k secs)
           = take (nat k) (sectionsText secs) @ sectionsText new @ drop (nat k) (sectionsText secs)"
    and "doc_ok new \<Longrightarrow> doc_ok (insertSections fm new k secs)"
proof -
  have len: "sectionsLength secs = int (length (sectionsText secs))"
    using assms(1) by (rule sectionsLength_text)
  have "sectionsText (insertSections fm new k secs)
           = take (nat k) (sectionsText secs) @ sectionsText new @ drop (nat k) (sectionsText secs)
       \<and> (doc_ok new \<longrightarrow> doc_ok (insertSections fm new k secs))"
  proof (cases "k < sectionsLength secs")
    case True
    then have "k < 0 + sectionsLength secs" by simp
    from insertLoop_inside [OF assms(1) assms(2) this, of fm new 0]
    show ?thesis by (simp add: insertSections_def case_prod_beta)
  next
    case False
    then have eq: "k = sectionsLength secs" using assms(3) by simp
    show ?thesis
    proof (cases secs)
      case Nil
      then show ?thesis using eq by (simp add: insertSections_def)
    next
      case (Cons x xs)
      have p: "0 < getTotalLength x" using assms(1) Cons by (simp add: section_pos)
      have a: "k \<noteq> 0" "\<not> (k > 0 \<and> k < 0 + getTotalLength x)"
        using eq Cons p sectionsLength_nonneg [of xs] by auto
      have "0 + getTotalLength x + sectionsLength xs \<le> k" using eq Cons by simp
      then have "\<not> (k < 0 + getTotalLength x \<or> 0 + getTotalLength x + sectionsLength xs < k) \<or> True"
        by simp
      have st: "insertLoop fm new k index index ys = (ys, index + sectionsLength ys)"
        if "doc_ok ys" "ys \<noteq> []" "k = index + sectionsLength ys" for ys index
        using that
      proof (induction ys arbitrary: index)
        case Nil
        then show ?case by simp
      next
        case (Cons y ys)
        have py: "0 < getTotalLength y" using Cons.prems(1) by (simp add: section_pos)
        have nn: "0 \<le> sectionsLength ys" by (rule sectionsLength_nonneg)
        show ?case
        proof (cases ys)
          case Nil
          then show ?thesis using Cons.prems py by (simp add: Let_def)
        next
          case (Cons z zs)
          then have "ys \<noteq> []" by simp
          from Cons.IH [OF _ this, of "index + getTotalLength y"] Cons.prems py nn
          show ?thesis by (simp add: Let_def)
        qed
      qed
      from st [of secs 0] assms(1) Cons eq
      have "insertLoop fm new k 0 0 secs = (secs, k)" by simp
      then show ?thesis using assms(1) len eq by (simp add: insertSections_def)
    qed
  qed
  then show "sectionsText (insertSections fm new k secs)
           = take (nat k) (sectionsText secs) @ sectionsText new @ drop (nat k) (sectionsText secs)"
    and "doc_ok new \<Longrightarrow> doc_ok (insertSections fm new k secs)" by simp_all
qed

lemma cutAt_before: "p \<le> index \<Longrightarrow> cutAt p index secs"
proof (induction secs arbitrary: index)
  case Nil
  show ?case by simp
next
  case (Cons x xs)
  have "p \<le> index + getTotalLength x" using Cons.prems getTotalLength_nonneg [of x] by simp
  from Cons.IH [OF this] Cons.prems show ?case by simp
qed

lemma cutAt_shift: "cutAt (p - d) (index - d) secs = cutAt p index secs"
proof (induction secs arbitrary: index)
  case Nil
  show ?case by simp
next
  case (Cons x xs)
  have h: "index - d + getTotalLength x = index + getTotalLength x - d" by simp
  have "(index - d < p - d) = (index < p)"
    "(p - d < index - d + getTotalLength x) = (p < index + getTotalLength x)" by auto
  then show ?case unfolding cutAt.simps h Cons.IH [of "index + getTotalLength x"] by simp
qed

lemma splitAtRangeEnds_props:
  assumes "doc_ok secs" and "getStart r \<le> getEnd r"
  shows "sectionsText (splitAtRangeEnds fm r index secs) = sectionsText secs
       \<and> doc_ok (splitAtRangeEnds fm r index secs)
       \<and> cutAt (getStart r) index (splitAtRangeEnds fm r index secs)
       \<and> cutAt (getEnd r) index (splitAtRangeEnds fm r index secs)"
  using assms
proof (induction fm r index secs rule: splitAtRangeEnds.induct)
  case (1 fm r index)
  show ?case by (simp add: splitAtRangeEnds.simps)
next
  case (2 fm r index x xs)
  have okx: "section_ok x" "atoms x \<noteq> []" and okxs: "doc_ok xs" using 2(4) by simp_all
  let ?next = "index + getTotalLength x"
  show ?case
  proof (cases "getStart r > index \<and> getStart r < ?next")
    case True
    let ?k = "getStart r - index"
    let ?a = "fst (split_section fm x ?k)" and ?b = "snd (split_section fm x ?k)"
    have k: "0 < ?k" "?k < getTotalLength x" using True by simp_all
    note sp = split_section_inside [OF okx(1) k, of fm]
    have e: "splitAtRangeEnds fm r index (x # xs) = splitAtRangeEnds fm r index (?a # ?b # xs)"
      using True by (subst splitAtRangeEnds.simps) (simp add: Let_def case_prod_beta)
    have d: "doc_ok (?a # ?b # xs)" using sp okxs by simp
    have t: "sectionsText (?a # ?b # xs) = sectionsText (x # xs)" using sp by simp
    from 2(1) [OF refl True prod.collapse d 2(5)] t show ?thesis unfolding e by simp
  next
    case ns: False
    show ?thesis
    proof (cases "getEnd r > index \<and> getEnd r < ?next")
      case True
      let ?k = "getEnd r - index"
      let ?a = "fst (split_section fm x ?k)" and ?b = "snd (split_section fm x ?k)"
      have k: "0 < ?k" "?k < getTotalLength x" using True by simp_all
      note sp = split_section_inside [OF okx(1) k, of fm]
      have e: "splitAtRangeEnds fm r index (x # xs) = splitAtRangeEnds fm r index (?a # ?b # xs)"
        using ns True by (subst splitAtRangeEnds.simps) (auto simp: Let_def case_prod_beta)
      have d: "doc_ok (?a # ?b # xs)" using sp okxs by simp
      have t: "sectionsText (?a # ?b # xs) = sectionsText (x # xs)" using sp by simp
      from 2(2) [OF refl ns True prod.collapse d 2(5)] t show ?thesis unfolding e by simp
    next
      case ne: False
      show ?thesis
      proof (cases "?next > getEnd r")
        case True
        have e: "splitAtRangeEnds fm r index (x # xs) = x # xs"
          using ns ne True by (subst splitAtRangeEnds.simps) (auto simp: Let_def)
        have "cutAt (getStart r) ?next xs" "cutAt (getEnd r) ?next xs"
          using True 2(5) by (simp_all add: cutAt_before)
        then show ?thesis unfolding e using ns ne 2(4) by simp
      next
        case False
        have e: "splitAtRangeEnds fm r index (x # xs) = x # splitAtRangeEnds fm r ?next xs"
          using ns ne False by (subst splitAtRangeEnds.simps) (auto simp: Let_def)
        from 2(3) [OF refl ns ne False okxs 2(5)] show ?thesis
          unfolding e using ns ne okx by simp
      qed
    qed
  qed
qed

lemma take_drop_text:
  "length a \<le> n \<Longrightarrow> take n (a @ b) = a @ take (n - length a) b"
  "length a \<le> n \<Longrightarrow> drop n (a @ b) = drop (n - length a) b"
  by simp_all

lemma removeLoop_props:
  assumes "doc_ok secs" and "cutAt s index secs" and "cutAt e index secs"
    and "index \<le> s" and "s < e"
  shows "sectionsText (removeLoop (s, e) index secs)
           = take (nat (s - index)) (sectionsText secs) @ drop (nat (e - index)) (sectionsText secs)
       \<and> doc_ok (removeLoop (s, e) index secs)"
  using assms
proof (induction secs arbitrary: index e)
  case Nil
  show ?case by simp
next
  case (Cons x xs)
  have okx: "section_ok x" "atoms x \<noteq> []" and okxs: "doc_ok xs" using Cons.prems(1) by simp_all
  have lx: "getTotalLength x = int (length (appendAllText x))" using okx(1) by (rule getTotalLength_text)
  have px: "0 < getTotalLength x" using okx by (rule section_pos)
  let ?next = "index + getTotalLength x"
  have cs: "\<not> (index < s \<and> s < ?next)" "cutAt s ?next xs" using Cons.prems(2) by simp_all
  have ce: "\<not> (index < e \<and> e < ?next)" "cutAt e ?next xs" using Cons.prems(3) by simp_all
  show ?case
  proof (cases "s \<le> index \<and> e \<ge> ?next")
    case True
    then have si: "s = index" using Cons.prems(4) by simp
    let ?e' = "e - (?next - index)"
    have se: "setEnd (s, e) ?e' = (s, ?e')" using True si by (simp add: setEnd_def)
    show ?thesis
    proof (cases "?e' = s")
      case em: True
      have r: "removeLoop (s, e) index (x # xs) = xs"
        using True se em by (simp add: Let_def getStart_def getEnd_def isEmptyRange_def)
      have "nat (e - index) = length (appendAllText x)" using em si lx by simp
      then show ?thesis unfolding r using okxs si by simp
    next
      case ne: False
      have r: "removeLoop (s, e) index (x # xs) = removeLoop (s, ?e') index xs"
        using True se ne by (simp add: Let_def getStart_def getEnd_def isEmptyRange_def)
      have c1: "cutAt s index xs" using si by (simp add: cutAt_before)
      have "cutAt (e - getTotalLength x) (?next - getTotalLength x) xs"
        using ce(2) by (simp only: cutAt_shift)
      then have c2: "cutAt ?e' index xs" by simp
      have lt: "s < ?e'" using True ne si by simp
      note IH = Cons.IH [OF okxs c1 c2 Cons.prems(4) lt]
      have n: "nat (e - index) = length (appendAllText x) + nat (?e' - index)"
        using True lx si by simp
      show ?thesis unfolding r using IH si n by simp
    qed
  next
    case False
    have r: "removeLoop (s, e) index (x # xs) = x # removeLoop (s, e) ?next xs"
      using False by (auto simp: Let_def getStart_def getEnd_def)
    have ge: "?next \<le> s"
    proof (cases "index < s")
      case True
      then show ?thesis using cs(1) by simp
    next
      case F: False
      then have "s = index" using Cons.prems(4) by simp
      then have "e < ?next" using False by simp
      then have "e \<le> index" using ce(1) by simp
      then show ?thesis using Cons.prems(4,5) by simp
    qed
    note IH = Cons.IH [OF okxs cs(2) ce(2) ge Cons.prems(5)]
    have n: "nat (s - index) = length (appendAllText x) + nat (s - ?next)"
      "nat (e - index) = length (appendAllText x) + nat (e - ?next)"
      using ge lx Cons.prems(5) by simp_all
    show ?thesis unfolding r using IH okx n by simp
  qed
qed

lemma removedSectionsLoop_props:
  assumes "doc_ok secs" and "cutAt s index secs" and "cutAt e index secs" and "s < e"
  shows "sectionsText (removedSectionsLoop (s, e) index secs)
           = take (nat (e - index) - nat (s - index)) (drop (nat (s - index)) (sectionsText secs))
       \<and> doc_ok (removedSectionsLoop (s, e) index secs)"
  using assms
proof (induction secs arbitrary: index)
  case Nil
  show ?case by simp
next
  case (Cons x xs)
  have okx: "section_ok x" "atoms x \<noteq> []" and okxs: "doc_ok xs" using Cons.prems(1) by simp_all
  have lx: "getTotalLength x = int (length (appendAllText x))" using okx(1) by (rule getTotalLength_text)
  have px: "0 < getTotalLength x" using okx by (rule section_pos)
  let ?next = "index + getTotalLength x"
  have cs: "\<not> (index < s \<and> s < ?next)" "cutAt s ?next xs" using Cons.prems(2) by simp_all
  have ce: "\<not> (index < e \<and> e < ?next)" "cutAt e ?next xs" using Cons.prems(3) by simp_all
  note IH = Cons.IH [OF okxs cs(2) ce(2) Cons.prems(4)]
  show ?case
  proof (cases "s \<le> index \<and> e \<ge> ?next")
    case True
    have r: "removedSectionsLoop (s, e) index (x # xs) = x # removedSectionsLoop (s, e) ?next xs"
      using True Cons.prems(4) by (simp add: Let_def getStart_def getEnd_def)
    have n0: "nat (s - index) = 0" "nat (s - ?next) = 0"
      using True px by simp_all
    have n1: "nat (e - index) = length (appendAllText x) + nat (e - ?next)"
      using True lx by arith
    note n = n0 n1
    show ?thesis unfolding r using IH okx n by simp
  next
    case False
    have r: "removedSectionsLoop (s, e) index (x # xs) = removedSectionsLoop (s, e) ?next xs"
      using False Cons.prems(4) by (auto simp: Let_def getStart_def getEnd_def)
    show ?thesis
    proof (cases "index < s")
      case True
      then have ge: "?next \<le> s" using cs(1) by simp
      have n: "nat (s - index) = length (appendAllText x) + nat (s - ?next)"
        "nat (e - index) - nat (s - index) = nat (e - ?next) - nat (s - ?next)"
        using ge lx Cons.prems(4) by simp_all
      show ?thesis unfolding r using IH n by simp
    next
      case F: False
      then have "e < ?next" using False by simp
      then have le: "e \<le> index" using ce(1) by simp
      have n: "nat (e - index) = 0" "nat (e - ?next) = 0" using le px by simp_all
      show ?thesis unfolding r using IH n by simp
    qed
  qed
qed

lemma append_section_nonempty: "atoms s \<noteq> [] \<Longrightarrow> atoms (append_section fm s other) \<noteq> []"
  by (simp add: append_section_def Let_def)

lemma coalesce_doc_ok:
  assumes "doc_ok secs" and "sectionsLength secs < 65536"
  shows "doc_ok (coalesceSimilarSections fm secs)"
  using assms
proof (induction fm secs rule: coalesceSimilarSections.induct)
  case (1 fm s1 s2 rest)
  show ?case
  proof (cases "font s1 = font s2 \<and> colour s1 = colour s2")
    case True
    have b: "getTotalLength s1 + getTotalLength s2 < 65536"
      using 1(4) sectionsLength_nonneg [of rest] by simp
    from append_section_ok [OF _ _ b, of fm] 1(3)
    have a: "section_ok (append_section fm s1 s2)"
      "getTotalLength (append_section fm s1 s2) = getTotalLength s1 + getTotalLength s2"
      by simp_all
    have "atoms (append_section fm s1 s2) \<noteq> []" using 1(3) by (simp add: append_section_nonempty)
    then show ?thesis using True 1(1) 1(3,4) a by simp
  next
    case False
    have "sectionsLength (s2 # rest) < 65536"
      using 1(4) getTotalLength_nonneg [of s1] by simp
    then show ?thesis using False 1(2) 1(3) by auto
  qed
qed simp_all

lemma take_take_drop: "n \<le> m \<Longrightarrow> take n xs @ take (m - n) (drop n xs) @ drop m xs = xs"
proof -
  assume "n \<le> m"
  then have "take m xs = take n xs @ take (m - n) (drop n xs)"
    using take_add [of n "m - n" xs] by simp
  then show ?thesis by (metis append.assoc append_take_drop_id)
qed

text \<open>The text after the sections inside the range are removed, and the text of the copies.\<close>

lemma remove_text:
  assumes "doc_ok secs" and "sectionsLength secs < 65536" and "0 \<le> s" and "s < e"
  shows "sectionsText (coalesceSimilarSections fm
             (removeLoop (s, e) 0 (splitAtRangeEnds fm (s, e) 0 secs)))
           = take (nat s) (sectionsText secs) @ drop (nat e) (sectionsText secs)"
    and "doc_ok (coalesceSimilarSections fm
             (removeLoop (s, e) 0 (splitAtRangeEnds fm (s, e) 0 secs)))"
    and "sectionsLength (coalesceSimilarSections fm
             (removeLoop (s, e) 0 (splitAtRangeEnds fm (s, e) 0 secs))) < 65536"
proof -
  let ?D = "splitAtRangeEnds fm (s, e) 0 secs"
  let ?R = "removeLoop (s, e) 0 ?D"
  have r: "getStart (s, e) \<le> getEnd (s, e)" using assms(4) by (simp add: getStart_def getEnd_def)
  from splitAtRangeEnds_props [OF assms(1) r, of fm 0]
  have d: "sectionsText ?D = sectionsText secs" "doc_ok ?D" "cutAt s 0 ?D" "cutAt e 0 ?D"
    by (simp_all add: getStart_def getEnd_def)
  from removeLoop_props [OF d(2) d(3) d(4) assms(3) assms(4)]
  have t: "sectionsText ?R = take (nat s) (sectionsText secs) @ drop (nat e) (sectionsText secs)"
    and k: "doc_ok ?R" using d(1) by simp_all
  have "length (sectionsText ?R) \<le> length (sectionsText secs)"
    unfolding t using assms(3,4) by simp
  then have b: "sectionsLength ?R < 65536"
    using sectionsLength_text [OF k] sectionsLength_text [OF assms(1)] assms(2) by simp
  show "sectionsText (coalesceSimilarSections fm ?R)
           = take (nat s) (sectionsText secs) @ drop (nat e) (sectionsText secs)"
    using t by simp
  show c: "doc_ok (coalesceSimilarSections fm ?R)" using k b by (rule coalesce_doc_ok)
  show "sectionsLength (coalesceSimilarSections fm ?R) < 65536"
    using sectionsLength_text [OF c] sectionsLength_text [OF k] b by simp
qed

lemma removed_text:
  assumes "doc_ok secs" and "0 \<le> s" and "s < e"
  shows "sectionsText (removedSectionsLoop (s, e) 0 (splitAtRangeEnds fm (s, e) 0 secs))
           = take (nat e - nat s) (drop (nat s) (sectionsText secs))"
proof -
  let ?D = "splitAtRangeEnds fm (s, e) 0 secs"
  have r: "getStart (s, e) \<le> getEnd (s, e)" using assms(3) by (simp add: getStart_def getEnd_def)
  from splitAtRangeEnds_props [OF assms(1) r, of fm 0]
  have d: "sectionsText ?D = sectionsText secs" "doc_ok ?D" "cutAt s 0 ?D" "cutAt e 0 ?D"
    by (simp_all add: getStart_def getEnd_def)
  from removedSectionsLoop_props [OF d(2) d(3) d(4) assms(3)] d(1)
  show ?thesis by simp
qed

lemma reinsert_text:
  assumes "doc_ok secs" and "0 \<le> s" and "s < e"
    and "sectionsText cur = take (nat s) (sectionsText secs) @ drop (nat e) (sectionsText secs)"
    and "doc_ok cur"
    and "sectionsText snap = take (nat e - nat s) (drop (nat s) (sectionsText secs))"
  shows "sectionsText (insertSections fm snap s cur) = sectionsText secs"
proof (cases "s \<le> sectionsLength cur")
  case True
  let ?T = "sectionsText secs"
  have lc: "sectionsLength cur = int (length (sectionsText cur))"
    using assms(5) by (rule sectionsLength_text)
  have sl: "nat s \<le> length ?T"
  proof (rule ccontr)
    assume "\<not> nat s \<le> length ?T"
    then have "length (sectionsText cur) < nat s" unfolding assms(4) using assms(2,3) by simp
    then show False using True lc assms(2) by simp
  qed
  have a: "take (nat s) (sectionsText cur) = take (nat s) ?T"
    unfolding assms(4) using sl by simp
  have b: "drop (nat s) (sectionsText cur) = drop (nat e) ?T"
    unfolding assms(4) using sl by simp
  have le: "nat s \<le> nat e" using assms(2,3) by simp
  from insertSections_inside(1) [OF assms(5) assms(2) True, of fm snap]
  show ?thesis unfolding a b assms(6) using take_take_drop [OF le, of ?T] by simp
next
  case False
  let ?T = "sectionsText secs"
  have lc: "sectionsLength cur = int (length (sectionsText cur))"
    using assms(5) by (rule sectionsLength_text)
  have "length (sectionsText cur) < nat s" using False lc assms(2) by simp
  then have "length ?T < nat s"
    unfolding assms(4) by (cases "nat s \<le> length ?T") simp_all
  then have "sectionsText cur = ?T" unfolding assms(4) using assms(2,3) by simp
  moreover have "insertSections fm snap s cur = cur"
    using False by (simp add: insertSections_outside)
  ultimately show ?thesis by simp
qed

section \<open>The round trip of remove and reinsert, and insert out of range\<close>

lemma makeAtom_ok: "0 < n \<Longrightarrow> n \<le> length s \<Longrightarrow> n < 65536 \<Longrightarrow> atom_ok (makeAtom fm f pc s n)"
  by (auto simp: atom_ok_def uint_nat unat_of_nat)

lemma initialiseAtoms_ok:
  "length s < 65536 \<Longrightarrow> list_all atom_ok (initialiseAtoms fm f pc s)"
proof (induction fm f pc s rule: initialiseAtoms.induct)
  case (1 fm f pc)
  show ?case by simp
next
  case (2 fm f pc c cs)
  show ?case
  proof (cases "isBlank c")
    case True
    let ?n = "Suc (length (takeWhile isBlank cs))"
    have le: "?n \<le> length (c # cs)" by (simp add: length_takeWhile_le)
    have "atom_ok (makeAtom fm f pc (c # cs) ?n)"
      using le 2(7) by (intro makeAtom_ok) simp_all
    then show ?thesis using True 2(1) [OF True refl] 2(7)
      by (simp add: initialiseAtoms.simps Let_def)
  next
    case nb: False
    show ?thesis
    proof (cases "c = CR")
      case True
      show ?thesis
      proof (cases cs)
        case Nil
        then show ?thesis using nb True by (simp add: initialiseAtoms.simps makeAtom_ok)
      next
        case (Cons d ds)
        show ?thesis
        proof (cases "d = LF")
          case dl: True
          then show ?thesis using nb True Cons 2(3) [OF nb True Cons dl] 2(7)
            by (simp add: initialiseAtoms.simps makeAtom_ok)
        next
          case dl: False
          then show ?thesis using nb True Cons 2(4) [OF nb True Cons dl] 2(7)
            by (simp add: initialiseAtoms.simps makeAtom_ok)
        qed
      qed
    next
      case ncr: False
      show ?thesis
      proof (cases "c = LF")
        case True
        then show ?thesis using nb ncr 2(5) [OF nb ncr True] 2(7)
          by (simp add: initialiseAtoms.simps makeAtom_ok)
      next
        case nlf: False
        let ?n = "length (takeWhile (\<lambda>d. \<not> isWhitespace d) (c # cs))"
        have le: "?n \<le> length (c # cs)" by (rule length_takeWhile_le)
        have nw: "\<not> isWhitespace c" using nb ncr nlf by (simp add: isBlank_def)
        then have "0 < ?n" by simp
        then have "atom_ok (makeAtom fm f pc (c # cs) ?n)"
          using le 2(7) by (intro makeAtom_ok) simp_all
        then show ?thesis using nb ncr nlf 2(6) [OF nb ncr nlf refl] 2(7)
          by (simp add: initialiseAtoms.simps Let_def del: takeWhile.simps)
      qed
    qed
  qed
qed

lemma initialiseAtoms_nonempty: "s \<noteq> [] \<Longrightarrow> initialiseAtoms fm f pc s \<noteq> []"
  by (cases s) (auto simp: initialiseAtoms.simps Let_def split: list.splits)

lemma newUniformTextSection_ok:
  "txt \<noteq> [] \<Longrightarrow> length txt < 65536 \<Longrightarrow> doc_ok [newUniformTextSection fm txt f col pc]"
  by (simp add: newUniformTextSection_def section_ok_def initialiseAtoms_ok
      initialiseAtoms_nonempty)

lemma Range_int_pair: "Range_int s e = (s, max s e)"
  by (simp add: Range_int_def)

text \<open>
  The text after \<open>RemoveAction::perform\<close> and \<open>RemoveAction::undo\<close>, on the sections as the
  first loop of \<open>remove\<close> leaves them, with the copies \<open>remove\<close> takes.
\<close>

lemma remove_reinsert_sections:
  fixes s e :: int and fm :: "'f FontMetrics" and secs :: "('f, 'c) UniformTextSection list"
  assumes "doc_ok secs" and "sectionsLength secs < 65536" and "0 \<le> s"
  shows "sectionsText (coalesceSimilarSections fm
           (insertSections fm
              (removedSectionsLoop (Range_int s e) 0 (splitAtRangeEnds fm (Range_int s e) 0 secs))
              (getStart (Range_int s e))
              (if isEmptyRange (Range_int s e) then splitAtRangeEnds fm (Range_int s e) 0 secs
               else coalesceSimilarSections fm
                      (removeLoop (Range_int s e) 0
                         (splitAtRangeEnds fm (Range_int s e) 0
                            (splitAtRangeEnds fm (Range_int s e) 0 secs))))))
           = sectionsText secs"
proof -
  let ?r = "Range_int s e"
  let ?parts = "splitAtRangeEnds fm ?r 0 secs"
  let ?snap = "removedSectionsLoop ?r 0 ?parts"
  have rs: "getStart ?r \<le> getEnd ?r" by (simp add: Range_int_def getStart_def getEnd_def)
  from splitAtRangeEnds_props [OF assms(1) rs, of fm 0]
  have c: "sectionsText ?parts = sectionsText secs" "doc_ok ?parts" by blast+
  have cl: "sectionsLength ?parts < 65536"
    using sectionsLength_text [OF c(2)] sectionsLength_text [OF assms(1)] c(1) assms(2) by simp
  show ?thesis
  proof (cases "isEmptyRange ?r")
    case True
    have sn: "?snap = []"
      using True by (cases ?parts) (simp_all add: isEmptyRange_def getStart_def getEnd_def)
    have "sectionsText (insertSections fm [] (getStart ?r) ?parts) = sectionsText ?parts"
    proof (cases "getStart ?r \<le> sectionsLength ?parts")
      case T: True
      have "0 \<le> getStart ?r" using assms(3) by (simp add: Range_int_def getStart_def)
      from insertSections_inside(1) [OF c(2) this T, of fm "[]"]
      show ?thesis by simp
    next
      case False
      then show ?thesis by (simp add: insertSections_outside)
    qed
    then show ?thesis using True sn c(1) by simp
  next
    case False
    define e' where "e' = max s e"
    have re: "?r = (s, e')" by (simp add: e'_def Range_int_def)
    have lt: "s < e'" using False unfolding re by (simp add: isEmptyRange_def e'_def)
    let ?cur = "coalesceSimilarSections fm (removeLoop (s, e') 0 (splitAtRangeEnds fm (s, e') 0 ?parts))"
    note rem = remove_text [OF c(2) cl assms(3) lt, of fm]
    have sn: "sectionsText ?snap = take (nat e' - nat s) (drop (nat s) (sectionsText secs))"
      using removed_text [OF assms(1) assms(3) lt, of fm] by (simp add: re)
    have t: "sectionsText ?cur = take (nat s) (sectionsText secs) @ drop (nat e') (sectionsText secs)"
      using rem(1) c(1) by (simp add: re)
    have k: "doc_ok ?cur" using rem(2) by (simp add: re)
    have "sectionsText (insertSections fm ?snap s ?cur) = sectionsText secs"
      using reinsert_text [OF assms(1) assms(3) lt t k sn, of fm] by simp
    then show ?thesis using False by (simp add: re getStart_def)
  qed
qed

lemma helloEditor_ok: "doc_ok (sections helloEditor)" "sectionsLength (sections helloEditor) = 5"
  by (simp_all add: helloEditor_eq section_ok_def atom_ok_def getTotalLength_def)

lemma helloEditor_text: "getText_editor helloEditor = ''hello''"
  by (simp add: helloEditor_eq getText_editor_def appendAllText_def)

text \<open>
  For every document that has its invariant and fewer than 65536 characters, and every
  range that starts at or after index 0, the undo path of \<open>remove\<close> followed by the undo
  of its action (the reinsertion of the copied sections at the start of the range) gives
  back the text.
\<close>

theorem remove_then_undo_restores_text:
  assumes "doc_ok (sections ed)" and "sectionsLength (sections ed) < 65536" and "0 \<le> s"
  shows "getText_editor (removeThenUndo fm (Range_int s e) oldCaret newCaret ed) = getText_editor ed"
  using remove_reinsert_sections [OF assms, of fm e]
  by (cases "isEmptyRange (Range_int s e)")
     (simp_all add: removeThenUndo_def Let_def getText_editor_sections)

theorem remove_then_undo_restores_text_witness:
  "doc_ok (sections helloEditor) \<and> sectionsLength (sections helloEditor) < 65536 \<and> (0::int) \<le> 1
   \<and> getText_editor (removeThenUndo fixedPitch (Range_int 1 3) 0 0 helloEditor) = ''hello''
   \<and> getText_editor (removeDirect fixedPitch (Range_int 1 3) 0 helloEditor) = ''hlo''"
proof -
  have h1: "doc_ok (sections helloEditor)" by (rule helloEditor_ok)
  have h2: "sectionsLength (sections helloEditor) < 65536" by (simp add: helloEditor_ok)
  have h3: "(0::int) \<le> 1" by simp
  have r: "getText_editor (removeDirect fixedPitch (Range_int 1 3) 0 helloEditor) = ''hlo''"
    by code_simp
  from remove_then_undo_restores_text [OF h1 h2 h3, of fixedPitch 3 0 0] h1 h2 r helloEditor_text
  show ?thesis by simp
qed

lemma initialiseAtoms_word_then:
  assumes "\<not> isWhitespace c" and "isWhitespace d"
  shows "initialiseAtoms fm f pc (replicate (Suc n) c @ d # r)
           = makeAtom fm f pc (replicate (Suc n) c) (Suc n) # initialiseAtoms fm f pc (d # r)"
proof -
  have nb: "\<not> isBlank c" "c \<noteq> CR" "c \<noteq> LF"
    using assms by (auto simp: isBlank_def)
  have tw: "takeWhile (\<lambda>d. \<not> isWhitespace d) (c # replicate n c @ d # r) = c # replicate n c"
  proof -
    have "takeWhile (\<lambda>d. \<not> isWhitespace d) (replicate n c @ d # r)
            = replicate n c @ takeWhile (\<lambda>d. \<not> isWhitespace d) (d # r)"
      by (rule takeWhile_append2) (use assms in simp)
    then show ?thesis using assms by simp
  qed
  have mk: "makeAtom fm f pc (c # replicate n c @ d # r) (Suc n) = makeAtom fm f pc (c # replicate n c) (Suc n)"
    by (simp add: makeAtom_def)
  show ?thesis
    unfolding replicate_Suc append_Cons initialiseAtoms.simps(2) [of fm f pc c "replicate n c @ d # r"] Let_def tw
    using nb mk by simp
qed

lemma twoLongLines_atoms:
  "sections twoLongLines =
     [\<lparr>font = (), colour = (),
       atoms = [\<lparr>atomText = replicate 32768 (CHR ''a''), width = 32768, numChars = 32768\<rparr>,
                \<lparr>atomText = [LF], width = 0, numChars = 1\<rparr>,
                \<lparr>atomText = replicate 32768 (CHR ''a''), width = 32768, numChars = 32768\<rparr>],
       passwordChar = CHR 0x00\<rparr>]"
proof -
  have nw: "\<not> isWhitespace (CHR ''a'')" by (simp add: isWhitespace_def)
  have a: "initialiseAtoms fixedPitch () (CHR 0x00) (replicate 32768 (CHR ''a''))
             = [makeAtom fixedPitch () (CHR 0x00) (replicate 32768 (CHR ''a'')) 32768]"
    using initialiseAtoms_word [OF nw, of fixedPitch "()" "CHR 0x00" 32767] by simp
  have b: "initialiseAtoms fixedPitch () (CHR 0x00) (LF # replicate 32768 (CHR ''a''))
             = makeAtom fixedPitch () (CHR 0x00) (LF # replicate 32768 (CHR ''a'')) 1
               # initialiseAtoms fixedPitch () (CHR 0x00) (replicate 32768 (CHR ''a''))"
    by (simp add: initialiseAtoms.simps(2) [of _ _ _ LF] isBlank_def)
  have c: "initialiseAtoms fixedPitch () (CHR 0x00)
             (replicate 32768 (CHR ''a'') @ LF # replicate 32768 (CHR ''a''))
           = makeAtom fixedPitch () (CHR 0x00) (replicate 32768 (CHR ''a'')) 32768
             # initialiseAtoms fixedPitch () (CHR 0x00) (LF # replicate 32768 (CHR ''a''))"
    using initialiseAtoms_word_then [OF nw isWhitespace_LF, of fixedPitch "()" "CHR 0x00" 32767]
    by simp
  have m1: "makeAtom fixedPitch () (CHR 0x00) (replicate 32768 (CHR ''a'')) 32768
              = \<lparr>atomText = replicate 32768 (CHR ''a''), width = 32768, numChars = 32768\<rparr>"
    by (simp add: makeAtom_def Let_def isNewLine_def firstCharacter_replicate CR_def LF_def
        getText_def fixedPitch_def)
  have m2: "makeAtom fixedPitch () (CHR 0x00) (LF # replicate 32768 (CHR ''a'')) 1
              = \<lparr>atomText = [LF], width = 0, numChars = 1\<rparr>"
    by (simp add: makeAtom_def Let_def isNewLine_def firstCharacter_def)
  show ?thesis
    unfolding twoLongLines_def newUniformTextSection_def c b a m1 m2
    by (simp add: emptyEditor_def)
qed

text \<open>
  C1: the round trip loses text on a document of 65537 characters, two lines of 32768
  letters each. \<open>remove\<close> of the line feed between them leaves two sections of the same
  style, which are merged; the count of the merged word is cast to 16 bits and is 0, the
  total length of the document is 0, \<open>reinsert\<close> finds no section that starts or ends at
  index 32768, and the line feed is not put back.
\<close>

theorem remove_then_undo_loses_newline:
  "doc_ok (sections twoLongLines)
   \<and> getText_editor twoLongLines
       = replicate 32768 (CHR ''a'') @ LF # replicate 32768 (CHR ''a'')
   \<and> getText_editor (removeThenUndo fixedPitch (Range_int 32768 32769) 32769 32768 twoLongLines)
       = replicate 32768 (CHR ''a'') @ replicate 32768 (CHR ''a'')"
proof -
  define W where "W = \<lparr>atomText = replicate 32768 (CHR ''a''), width = 32768, numChars = 32768\<rparr>"
  define N where "N = \<lparr>atomText = [LF], width = 0, numChars = 1\<rparr>"
  define sec :: "TextAtom list \<Rightarrow> (unit, unit) UniformTextSection"
    where "sec = (\<lambda>as. \<lparr>font = (), colour = (), atoms = as, passwordChar = CHR 0x00\<rparr>)"
  define M where "M = \<lparr>atomText = replicate 32768 (CHR ''a'') @ replicate 32768 (CHR ''a''),
                        width = 65536, numChars = 0\<rparr>"
  define r where "r = Range_int 32768 32769"
  have r: "getStart r = 32768" "getEnd r = 32769" "\<not> isEmptyRange r"
    by (simp_all add: r_def Range_int_def getStart_def getEnd_def isEmptyRange_def)
  have rp: "r = (32768, 32769)" by (simp add: r_def Range_int_def)
  have secs: "sections twoLongLines = [sec [W, N, W]]"
    by (simp add: twoLongLines_atoms sec_def W_def N_def)
  have st [simp]: "font (sec as) = ()" "colour (sec as) = ()" "passwordChar (sec as) = CHR 0x00"
    "atoms (sec as) = as" for as
    by (simp_all add: sec_def)
  have nc: "uint (numChars W) = 32768" "uint (numChars N) = 1" "uint (numChars M) = 0"
    by (simp_all add: W_def N_def M_def)
  have len: "getTotalLength (sec [W, N, W]) = 65537" "getTotalLength (sec [W]) = 32768"
    "getTotalLength (sec [N]) = 1" "getTotalLength (sec [N, W]) = 32769"
    "getTotalLength (sec [M]) = 0"
    by (simp_all add: getTotalLength_def nc)
  have sp1: "split_section fixedPitch (sec [W, N, W]) 32768 = (sec [W], sec [N, W])"
    by (simp add: split_section_def nc Let_def sec_def)
  have sp2: "split_section fixedPitch (sec [N, W]) 1 = (sec [N], sec [W])"
    by (simp add: split_section_def nc Let_def sec_def)
  have p4: "splitAtRangeEnds fixedPitch r 32769 [sec [W]] = [sec [W]]"
    by (subst splitAtRangeEnds.simps) (simp add: r len)
  have p3: "splitAtRangeEnds fixedPitch r 32768 [sec [N], sec [W]] = [sec [N], sec [W]]"
    by (subst splitAtRangeEnds.simps) (simp add: r len p4)
  have p2: "splitAtRangeEnds fixedPitch r 32768 [sec [N, W]] = [sec [N], sec [W]]"
    by (subst splitAtRangeEnds.simps) (simp add: r len sp2 p3)
  have p1: "splitAtRangeEnds fixedPitch r 0 [sec [W], sec [N, W]] = [sec [W], sec [N], sec [W]]"
    by (subst splitAtRangeEnds.simps) (simp add: r len p2)
  have parts: "splitAtRangeEnds fixedPitch r 0 [sec [W, N, W]] = [sec [W], sec [N], sec [W]]"
    by (subst splitAtRangeEnds.simps) (simp add: r len sp1 p1)
  have parts2: "splitAtRangeEnds fixedPitch r 0 [sec [W], sec [N], sec [W]]
                  = [sec [W], sec [N], sec [W]]"
    by (subst splitAtRangeEnds.simps) (simp add: r len p3)
  have snap: "removedSectionsLoop r 0 [sec [W], sec [N], sec [W]] = [sec [N]]"
    by (simp add: r len)
  have rem: "removeLoop r 0 [sec [W], sec [N], sec [W]] = [sec [W], sec [W]]"
    by (simp add: rp len setEnd_def isEmptyRange_def getStart_def getEnd_def Let_def)
  have nw: "\<not> isWhitespace (CHR ''a'')" by (simp add: isWhitespace_def)
  have ap: "append_section fixedPitch (sec [W]) (sec [W]) = sec [M]"
    using nw by (simp add: append_section_def Let_def W_def M_def sec_def
        getLastCharacter_replicate firstCharacter_replicate getText_def fixedPitch_def)
  have co: "coalesceSimilarSections fixedPitch [sec [W], sec [W]] = [sec [M]]"
    by (simp add: ap)
  have ins: "insertSections fixedPitch [sec [N]] 32768 [sec [M]] = [sec [M]]"
    by (rule insertSections_outside) (simp add: len)
  have ok: "doc_ok (sections twoLongLines)"
    by (simp add: secs section_ok_def atom_ok_def W_def N_def)
  have t0: "getText_editor twoLongLines
              = replicate 32768 (CHR ''a'') @ LF # replicate 32768 (CHR ''a'')"
    by (simp add: getText_editor_def secs appendAllText_def W_def N_def)
  have "sections (removeThenUndo fixedPitch r 32769 32768 twoLongLines)
          = coalesceSimilarSections fixedPitch
              (insertSections fixedPitch
                 (removedSectionsLoop r 0 [sec [W], sec [N], sec [W]]) (getStart r)
                 (coalesceSimilarSections fixedPitch
                    (removeLoop r 0
                       (splitAtRangeEnds fixedPitch r 0 [sec [W], sec [N], sec [W]]))))"
    by (simp add: removeThenUndo_def Let_def r(3) secs parts
        del: removeLoop.simps removedSectionsLoop.simps coalesceSimilarSections.simps)
  also have "\<dots> = [sec [M]]"
    unfolding parts2 snap rem co r(1) ins by simp
  finally have "sections (removeThenUndo fixedPitch r 32769 32768 twoLongLines) = [sec [M]]" .
  then have "getText_editor (removeThenUndo fixedPitch r 32769 32768 twoLongLines)
       = replicate 32768 (CHR ''a'') @ replicate 32768 (CHR ''a'')"
    by (simp add: getText_editor_def appendAllText_def M_def)
  with ok t0 show ?thesis unfolding r_def by blast
qed

lemma insert_editor_sections:
  "txt \<noteq> [] \<Longrightarrow>
   sections (insert_editor fm txt i f col um p ed) =
     coalesceSimilarSections fm
       (insertSections fm [newUniformTextSection fm txt f col (passwordCharacter ed)] i (sections ed))"
  by (simp add: insert_editor_def perform_def Let_def case_prod_beta newTransaction_def)

lemma newUniformTextSection_text:
  "\<not> containsCRLF txt \<Longrightarrow> sectionsText [newUniformTextSection fm txt f col pc] = txt"
  by (simp add: newUniformTextSection_def appendAllText_def concat_initialiseAtoms)

text \<open>
  C4, as stated, fails: \<open>insert\<close> at index 9 into the five characters of hello inserts
  nothing.
\<close>

theorem insert_beyond_end_counterexample:
  "sectionsLength (sections helloEditor) < 9
   \<and> getText_editor (insert_editor fixedPitch ''X'' 9 () () False 0 helloEditor)
       \<noteq> getText_editor helloEditor @ ''X''"
  by code_simp

text \<open>
  C4, amended: \<open>insert\<close> does not clamp its index. With an index below 0 or above the
  total length it leaves the text as it is, with or without the undo manager; with an
  index from 0 to the total length of a document that has its invariant it puts the text
  at that index (a text with no carriage return before a line feed).
\<close>

theorem insert_index_not_clamped:
  "(insertIndex < 0 \<or> sectionsLength (sections ed) < insertIndex \<longrightarrow>
      getText_editor (insert_editor fm txt insertIndex f col um caret ed) = getText_editor ed)
   \<and> (doc_ok (sections ed) \<and> 0 \<le> insertIndex \<and> insertIndex \<le> sectionsLength (sections ed)
        \<and> \<not> containsCRLF txt \<longrightarrow>
      getText_editor (insert_editor fm txt insertIndex f col um caret ed)
        = take (nat insertIndex) (getText_editor ed) @ txt
          @ drop (nat insertIndex) (getText_editor ed))"
proof (cases "txt = []")
  case True
  then show ?thesis by (simp add: insert_editor_def)
next
  case False
  let ?new = "[newUniformTextSection fm txt f col (passwordCharacter ed)]"
  have s: "getText_editor (insert_editor fm txt insertIndex f col um caret ed)
             = sectionsText (insertSections fm ?new insertIndex (sections ed))"
    using False by (simp add: getText_editor_sections insert_editor_sections)
  show ?thesis
  proof (intro conjI impI)
    assume "insertIndex < 0 \<or> sectionsLength (sections ed) < insertIndex"
    then show "getText_editor (insert_editor fm txt insertIndex f col um caret ed) = getText_editor ed"
      unfolding s by (simp add: insertSections_outside getText_editor_sections)
  next
    assume a: "doc_ok (sections ed) \<and> 0 \<le> insertIndex \<and> insertIndex \<le> sectionsLength (sections ed)
        \<and> \<not> containsCRLF txt"
    then have d: "doc_ok (sections ed)" and i0: "0 \<le> insertIndex"
      and i1: "insertIndex \<le> sectionsLength (sections ed)" and nc: "\<not> containsCRLF txt"
      by simp_all
    from insertSections_inside(1) [OF d i0 i1, of fm ?new] newUniformTextSection_text [OF nc]
    show "getText_editor (insert_editor fm txt insertIndex f col um caret ed)
        = take (nat insertIndex) (getText_editor ed) @ txt
          @ drop (nat insertIndex) (getText_editor ed)"
      unfolding s by (simp add: getText_editor_sections)
  qed
qed

theorem insert_index_not_clamped_witness:
  "sectionsLength (sections helloEditor) < 9
   \<and> getText_editor (insert_editor fixedPitch ''X'' 9 () () True 0 helloEditor) = ''hello''
   \<and> doc_ok (sections helloEditor) \<and> (0::int) \<le> 2 \<and> 2 \<le> sectionsLength (sections helloEditor)
   \<and> \<not> containsCRLF ''X''
   \<and> getText_editor (insert_editor fixedPitch ''X'' 2 () () True 0 helloEditor) = ''heXllo''"
proof -
  have h1: "sectionsLength (sections helloEditor) < 9" by (simp add: helloEditor_ok)
  have h2: "doc_ok (sections helloEditor) \<and> (0::int) \<le> 2 \<and> 2 \<le> sectionsLength (sections helloEditor)
            \<and> \<not> containsCRLF ''X''"
    by (simp add: helloEditor_ok)
  from insert_index_not_clamped [of 9 helloEditor fixedPitch "''X''" "()" "()" True 0] h1
  have a: "getText_editor (insert_editor fixedPitch ''X'' 9 () () True 0 helloEditor) = ''hello''"
    by (simp add: helloEditor_text)
  from insert_index_not_clamped [of 2 helloEditor fixedPitch "''X''" "()" "()" True 0] h2
  have b: "getText_editor (insert_editor fixedPitch ''X'' 2 () () True 0 helloEditor) = ''heXllo''"
    by (simp add: helloEditor_text)
  from a b h1 h2 show ?thesis by simp
qed

section \<open>The height of the text\<close>

lemma exponentFrom_le: "x < 2 powi j \<Longrightarrow> exponentFrom n k x \<le> max k (j - 1)"
proof (induction n arbitrary: k)
  case 0
  show ?case by simp
next
  case (Suc n)
  show ?case
  proof (cases "x < 2 powi (k + 1)")
    case True
    then show ?thesis by simp
  next
    case False
    then have "(2::rat) powi (k + 1) < 2 powi j" using Suc.prems by simp
    have "k + 1 < j"
    proof (rule ccontr)
      assume "\<not> k + 1 < j"
      then have "j \<le> k + 1" by simp
      then have "(2::rat) powi j \<le> 2 powi (k + 1)" by (rule power_int_increasing) simp
      with \<open>(2::rat) powi (k + 1) < 2 powi j\<close> show False by simp
    qed
    with Suc.IH [OF Suc.prems, of "k + 1"] False show ?thesis by simp
  qed
qed

lemma ulpExponent_le: "\<bar>x\<bar> < 2 powi j \<Longrightarrow> ulpExponent x \<le> max (j - 24) (- 149)"
  using exponentFrom_le [of "\<bar>x\<bar>" j 278 "- 150"] by (simp add: ulpExponent_def)

lemma ulpExponent_ge: "- 149 \<le> ulpExponent x"
  by (simp add: ulpExponent_def)

lemma roundToInt_of_int [simp]: "roundToInt (of_int k) = k"
  by (simp add: roundToInt_def)

lemma roundToInt_le: "of_int (roundToInt z) \<le> z + 1 / 2"
proof -
  define f where "f = \<lfloor>z\<rfloor>"
  have a: "of_int f \<le> z" "z < of_int f + 1" unfolding f_def by linarith+
  show ?thesis unfolding roundToInt_def Let_def f_def [symmetric] using a by auto
qed


lemma dyadicE: "dyadic g x \<Longrightarrow> \<exists>m::int. x = of_int m / 2 ^ g"
  unfolding dyadic_def by (metis nonzero_eq_divide_eq power_not_zero zero_neq_numeral)

lemma dyadicI: "x = of_int m / 2 ^ g \<Longrightarrow> dyadic g x"
  by (simp add: dyadic_def)

lemma float32_exact:
  assumes d: "dyadic g x" and b: "\<bar>x\<bar> < 2 powi (24 - int g)" and g: "g \<le> 149"
  shows "float32 x = x"
proof -
  obtain m :: int where x: "x = of_int m / 2 ^ g" using dyadicE [OF d] by blast
  define e where "e = ulpExponent x"
  have e1: "e \<le> - int g" using ulpExponent_le [OF b] g by (simp add: e_def)
  have e2: "- 149 \<le> e" by (simp add: e_def ulpExponent_ge)
  define k where "k = nat (- e - int g)"
  have ke: "- e = int k + int g" using e1 by (simp add: k_def)
  have "(2::rat) powi (- e) = 2 powi (int k + int g)" using ke by simp
  also have "\<dots> = 2 ^ k * 2 ^ g" by (simp add: power_int_add)
  finally have p: "(2::rat) powi (- e) = 2 ^ k * 2 ^ g" .
  have inv: "1 / (2::rat) powi e = 2 powi (- e)" by (simp add: power_int_minus field_simps)
  have q: "x / 2 powi e = of_int (m * 2 ^ k)"
  proof -
    have "x / 2 powi e = x * 2 powi (- e)" using inv by (simp add: field_simps)
    also have "\<dots> = of_int m / 2 ^ g * (2 ^ k * 2 ^ g)" by (simp add: x p)
    also have "\<dots> = of_int m * 2 ^ k" by simp
    finally show ?thesis by simp
  qed
  have "float32 x = of_int (roundToInt (x / 2 powi e)) * 2 powi e"
    by (simp add: float32_def e_def)
  also have "\<dots> = (x / 2 powi e) * 2 powi e" unfolding q by (simp only: roundToInt_of_int)
  also have "\<dots> = x" by simp
  finally show ?thesis .
qed

lemma float32_upper:
  assumes "\<bar>y\<bar> < 2 powi 24"
  shows "float32 y \<le> y + 1 / 2"
proof -
  define e where "e = ulpExponent y"
  have e0: "e \<le> 0" using ulpExponent_le [OF assms] by (simp add: e_def)
  have u: "0 < (2::rat) powi e" by simp
  have u1: "(2::rat) powi e \<le> 1"
    using power_int_increasing [of e 0 "2::rat"] e0 by simp
  have "float32 y = of_int (roundToInt (y / 2 powi e)) * 2 powi e"
    by (simp add: float32_def e_def)
  also have "\<dots> \<le> (y / 2 powi e + 1 / 2) * 2 powi e"
    using roundToInt_le [of "y / 2 powi e"] u by (simp add: mult_right_mono)
  also have "\<dots> = y + 2 powi e / 2" using u by (simp add: field_simps)
  also have "\<dots> \<le> y + 1 / 2" using u1 by simp
  finally show ?thesis .
qed



lemma dyadic_of_int [simp]: "dyadic g (of_int n)"
  by (rule dyadicI [of _ "n * 2 ^ g"]) simp

lemma dyadic_0 [simp]: "dyadic g 0"
  using dyadic_of_int [of g 0] by simp




lemma dyadic_max: "dyadic g a \<Longrightarrow> dyadic g b \<Longrightarrow> dyadic g (max a b)"
  by (simp add: max_def)




































lemma float32_0 [simp]: "float32 0 = 0"
  using float32_exact [of 0 0] by simp






end
